theory Spec2Isabelle
  imports Main "HOL-Library.Monad_Syntax"
begin

section \<open>Highlight ranges (src/components/Reader.tsx)\<close>

text \<open>
  \<^verbatim>\<open>interface Highlight { start: number; end: number; }\<close>
  The offsets are JavaScript numbers; every value the reader computes is an integer
  (a sum of string lengths and DOM offsets), so they are modelled as \<open>int\<close>.
  The field \<open>end\<close> is written \<open>end'\<close>, since \<open>end\<close> is a reserved word.
\<close>

record Highlight =
  start :: int
  end' :: int

section \<open>HighlightedText: the sort-and-merge pass, on values\<close>

text \<open>
  \<^verbatim>\<open>
  let current = sorted[0];
  for (let i = 1; i < sorted.length; i++) {
    if (current.end >= sorted[i].start) {
      current.end = Math.max(current.end, sorted[i].end);
    } else {
      merged.push(current);
      current = sorted[i];
    }
  }
  merged.push(current);
  \<close>
  The loop on the values of the ranges: the second argument is \<open>sorted[i..]\<close>, the third
  is \<open>merged\<close>. The same loop on range objects that live in a store is \<open>mergeLoopH\<close>
  below; the two agree on the values when the objects are distinct
  (\<open>HighlightedText_refines\<close>).
\<close>

fun mergeLoop :: "Highlight \<Rightarrow> Highlight list \<Rightarrow> Highlight list \<Rightarrow> Highlight list" where
  "mergeLoop current [] merged = merged @ [current]"
| "mergeLoop current (s # rest) merged =
     (if end' current \<ge> start s
      then mergeLoop (current\<lparr>end' := max (end' current) (end' s)\<rparr>) rest merged
      else mergeLoop s rest (merged @ [current]))"

text \<open>
  \<^verbatim>\<open>const sorted = [...highlights].sort((a, b) => a.start - b.start);
  const merged: Highlight[] = [];
  if (sorted.length > 0) { ... }\<close>
  \<open>Array.prototype.sort\<close> is stable, as is \<open>sort_key\<close>. The guard
  \<open>sorted.length > 0\<close> is the \<open>[]\<close> case.
\<close>

definition RangeMerger :: "Highlight list \<Rightarrow> Highlight list" where
  "RangeMerger highlights =
     (case sort_key start highlights of
        [] \<Rightarrow> []
      | current # rest \<Rightarrow> mergeLoop current rest [])"

text \<open>
  Adjacent ranges strictly separated: \<open>output[i].end < output[i+1].start\<close>.
\<close>

fun separated :: "Highlight list \<Rightarrow> bool" where
  "separated [] = True"
| "separated [a] = True"
| "separated (a # b # rest) = (end' a < start b \<and> separated (b # rest))"

section \<open>HighlightedText: building the rendered parts\<close>

text \<open>
  \<^verbatim>\<open>Math.max(0, Math.min(h.start, text.length))\<close>
\<close>

definition clampIndex :: "string \<Rightarrow> int \<Rightarrow> int" where
  "clampIndex text x = max 0 (min x (int (length text)))"

text \<open>
  \<open>String.prototype.slice(start, end)\<close>: a negative index counts from the end of the
  string, both indices are cut to \<open>[0, length]\<close>, and the result is empty when the
  start is not before the end.
\<close>

definition slice :: "string \<Rightarrow> int \<Rightarrow> int \<Rightarrow> string" where
  "slice text a b =
     (let n = int (length text);
          from = (if a < 0 then max (n + a) 0 else min a n);
          to = (if b < 0 then max (n + b) 0 else min b n)
      in take (nat (to - from)) (drop (nat from) text))"

text \<open>
  \<open>text.slice(lastIndex)\<close>: the end defaults to the length of the string.
\<close>

definition sliceFrom :: "string \<Rightarrow> int \<Rightarrow> string" where
  "sliceFrom text a = slice text a (int (length text))"

text \<open>
  The two kinds of \<open>span\<close> that HighlightedText pushes to \<open>parts\<close>: plain text
  (keys \<open>text-i\<close>, \<open>text-end\<close>) and highlighted text (key \<open>highlight-i\<close>).
\<close>

datatype part = TextSpan string | HighlightSpan string

text \<open>
  The text content of a part.
\<close>

fun partText :: "part \<Rightarrow> string" where
  "partText (TextSpan s) = s"
| "partText (HighlightSpan s) = s"

text \<open>
  Whether a part is a highlighted span.
\<close>

fun isHighlightSpan :: "part \<Rightarrow> bool" where
  "isHighlightSpan (TextSpan s) = False"
| "isHighlightSpan (HighlightSpan s) = True"

text \<open>
  \<^verbatim>\<open>
  merged.forEach((h, i) => {
    const start = Math.max(0, Math.min(h.start, text.length));
    const end = Math.max(0, Math.min(h.end, text.length));
    if (start > lastIndex) {
      parts.push(<span key={`text-${i}`}>{text.slice(lastIndex, start)}</span>);
    }
    parts.push(<span key={`highlight-${i}`} ...>{text.slice(start, end)}</span>);
    lastIndex = end;
  });
  \<close>
  The state of the loop is \<open>(parts, lastIndex)\<close>.
\<close>

fun renderLoop :: "string \<Rightarrow> Highlight list \<Rightarrow> part list \<Rightarrow> int \<Rightarrow> part list \<times> int" where
  "renderLoop text [] parts lastIndex = (parts, lastIndex)"
| "renderLoop text (h # hs) parts lastIndex =
     (let st = clampIndex text (start h);
          en = clampIndex text (end' h);
          parts1 = (if st > lastIndex then parts @ [TextSpan (slice text lastIndex st)] else parts);
          parts2 = parts1 @ [HighlightSpan (slice text st en)]
      in renderLoop text hs parts2 en)"

text \<open>
  \<^verbatim>\<open>
  const parts = [];
  let lastIndex = 0;
  merged.forEach(...);
  if (lastIndex < text.length) {
    parts.push(<span key="text-end">{text.slice(lastIndex)}</span>);
  }
  return <>{parts}</>;
  \<close>
\<close>

definition renderMerged :: "string \<Rightarrow> Highlight list \<Rightarrow> part list" where
  "renderMerged text merged =
     (case renderLoop text merged [] 0 of
        (parts, lastIndex) \<Rightarrow>
          if lastIndex < int (length text) then parts @ [TextSpan (sliceFrom text lastIndex)]
          else parts)"

text \<open>
  HighlightedText as a function of the values of the ranges.
  \<^verbatim>\<open>if (!highlights || highlights.length === 0) return <>{text}</>;\<close>
  The property \<open>highlights\<close> is optional: \<open>None\<close> is \<open>undefined\<close>. The bare text
  of the early return is modelled as one plain part.
\<close>

definition renderSegments :: "string \<Rightarrow> Highlight list option \<Rightarrow> part list" where
  "renderSegments text highlights =
     (case highlights of
        None \<Rightarrow> [TextSpan text]
      | Some hs \<Rightarrow> if length hs = 0 then [TextSpan text] else renderMerged text (RangeMerger hs))"

text \<open>
  The invariant of \<open>renderLoop\<close> used in the proofs: the clamped bounds of the remaining
  ranges are in order, starting from \<open>lastIndex\<close>.
\<close>

fun chain :: "string \<Rightarrow> int \<Rightarrow> Highlight list \<Rightarrow> bool" where
  "chain text lastIndex [] = True"
| "chain text lastIndex (h # hs) =
     (lastIndex \<le> clampIndex text (start h) \<and>
      clampIndex text (start h) \<le> clampIndex text (end' h) \<and>
      chain text (clampIndex text (end' h)) hs)"

section \<open>HighlightedText on a store of range objects\<close>

text \<open>
  A JavaScript array of ranges holds references to objects. The copy
  \<open>[...highlights]\<close> is shallow: \<open>sorted\<close> holds the same objects as the state, and
  \<open>current.end = ...\<close> writes into one of them. A reference is a \<open>nat\<close>, the store
  maps each reference to the value of its object.
\<close>

type_synonym ref = nat

text \<open>
  The store of range objects.
\<close>

type_synonym heap = "ref \<Rightarrow> Highlight"

text \<open>
  The merge loop of HighlightedText on references: \<open>current.end = Math.max(...)\<close>
  updates the store at \<open>current\<close>.
\<close>

fun mergeLoopH :: "heap \<Rightarrow> ref \<Rightarrow> ref list \<Rightarrow> ref list \<Rightarrow> heap \<times> ref list" where
  "mergeLoopH H current [] merged = (H, merged @ [current])"
| "mergeLoopH H current (s # rest) merged =
     (if end' (H current) \<ge> start (H s)
      then mergeLoopH (H(current := (H current)\<lparr>end' := max (end' (H current)) (end' (H s))\<rparr>))
             current rest merged
      else mergeLoopH H s rest (merged @ [current]))"

text \<open>
  \<^verbatim>\<open>
  const HighlightedText: React.FC<{ text: string; highlights?: Highlight[] }> =
      ({ text, highlights }) => {
    if (!highlights || highlights.length === 0) return <>{text}</>;
    const sorted = [...highlights].sort((a, b) => a.start - b.start);
    const merged: Highlight[] = [];
    if (sorted.length > 0) { ... }
    ...
    return <>{parts}</>;
  };
  \<close>
  The component on a store: it returns the store after rendering, and the parts. The parts
  are built from the values that the merged objects have after the merge loop.
\<close>

definition HighlightedText :: "heap \<Rightarrow> string \<Rightarrow> ref list option \<Rightarrow> heap \<times> part list" where
  "HighlightedText H text highlights =
     (case highlights of
        None \<Rightarrow> (H, [TextSpan text])
      | Some hs \<Rightarrow>
          if length hs = 0 then (H, [TextSpan text])
          else (case (case sort_key (\<lambda>r. start (H r)) hs of
                        [] \<Rightarrow> (H, [])
                      | current # rest \<Rightarrow> mergeLoopH H current rest []) of
                  (H', merged) \<Rightarrow> (H', renderMerged text (map H' merged))))"

section \<open>getBlockOffset: text offset of a selection endpoint inside a block element\<close>

text \<open>
  A DOM subtree: a text node with its data, or an element with its children. The
  \<open>nat\<close> is the identity of the node object (\<open>node === target\<close> compares identities).
\<close>

datatype node = TextNode nat string | ElementNode nat "node list"

text \<open>
  The text nodes of a subtree, the node itself included, in document order.
\<close>

fun textNodes :: "node \<Rightarrow> (nat \<times> string) list" where
  "textNodes (TextNode i s) = [(i, s)]"
| "textNodes (ElementNode i children) = concat (map textNodes children)"

text \<open>
  \<^verbatim>\<open>const walker = document.createTreeWalker(root, NodeFilter.SHOW_TEXT);\<close>
  The nodes that successive calls of \<open>walker.nextNode()\<close> return: the text nodes among
  the descendants of \<open>root\<close>, in document order (the root itself is never returned).
\<close>

definition walkerNodes :: "node \<Rightarrow> (nat \<times> string) list" where
  "walkerNodes root =
     (case root of TextNode i s \<Rightarrow> [] | ElementNode i children \<Rightarrow> concat (map textNodes children))"

text \<open>
  \<^verbatim>\<open>
  let node = walker.nextNode();
  while (node) {
    if (node === target) {
      return currentOffset + offset;
    }
    currentOffset += node.textContent?.length || 0;
    node = walker.nextNode();
  }
  return -1;
  \<close>
\<close>

fun walk :: "(nat \<times> string) list \<Rightarrow> nat \<Rightarrow> int \<Rightarrow> int \<Rightarrow> int" where
  "walk [] target offset currentOffset = -1"
| "walk ((i, s) # nodes) target offset currentOffset =
     (if i = target then currentOffset + offset
      else walk nodes target offset (currentOffset + int (length s)))"

text \<open>
  \<^verbatim>\<open>const getBlockOffset = (root: Node, target: Node, offset: number): number => {
    let currentOffset = 0; ... }\<close>
\<close>

definition getBlockOffset :: "node \<Rightarrow> nat \<Rightarrow> int \<Rightarrow> int" where
  "getBlockOffset root target offset = walk (walkerNodes root) target offset 0"

text \<open>
  The length of the text under \<open>root\<close>: the sum of the lengths of the text nodes that
  the walker visits.
\<close>

definition totalTextLength :: "node \<Rightarrow> int" where
  "totalTextLength root = int (length (concat (map snd (walkerNodes root))))"

section \<open>The content of a section (types.ts)\<close>

text \<open>
  \<^verbatim>\<open>export type ContentType = 'paragraph' | 'verse' | 'heading' | 'quote' | 'separator'
    | 'emphasis' | 'code-block' | 'scripture-line';\<close>
\<close>

datatype ContentType =
  Paragraph | Verse | Heading | Quote | Separator | Emphasis | CodeBlock | ScriptureLine

text \<open>
  \<^verbatim>\<open>export interface ContentBlock { type: ContentType; text: string; }\<close>
  The fields are written \<open>blockType\<close> and \<open>blockText\<close>.
\<close>

record ContentBlock =
  blockType :: ContentType
  blockText :: string

text \<open>
  \<^verbatim>\<open>export interface Section { id: string; title: string; ...; content: ContentBlock[]; }\<close>
  Only \<open>id\<close> (written \<open>sectionId\<close>) and \<open>content\<close> are read by the code modelled here.
\<close>

record Section =
  sectionId :: string
  content :: "ContentBlock list"

section \<open>The highlights state and the loop of applyHighlight\<close>

text \<open>
  \<^verbatim>\<open>interface HighlightsState { [blockIndex: number]: Highlight[]; }\<close>
  A JavaScript object with integer keys enumerates them in ascending order; the state
  is an association list kept in that order (\<open>setBlock\<close> inserts in order).
\<close>

type_synonym HighlightsState = "(nat \<times> Highlight list) list"

text \<open>
  \<open>newHighlights[i]\<close>: \<open>None\<close> is \<open>undefined\<close>.
\<close>

definition getBlock :: "HighlightsState \<Rightarrow> nat \<Rightarrow> Highlight list option" where
  "getBlock hl i = map_of hl i"

text \<open>
  \<open>newHighlights[i] = blockHighlights\<close>.
\<close>

fun setBlock :: "nat \<Rightarrow> Highlight list \<Rightarrow> HighlightsState \<Rightarrow> HighlightsState" where
  "setBlock i v [] = [(i, v)]"
| "setBlock i v ((k, w) # rest) =
     (if i < k then (i, v) # (k, w) # rest
      else if i = k then (i, v) # rest
      else (k, w) # setBlock i v rest)"

text \<open>
  The fields of the DOM \<open>Range\<close> of the selection that applyHighlight reads
  (\<open>selection.getRangeAt(0)\<close>); the containers are node identities, the offsets are
  unsigned.
\<close>

record DomRange =
  startContainer :: nat
  startOffset :: nat
  endContainer :: nat
  endOffset :: nat

text \<open>
  \<open>section.content[i].text\<close> throws a TypeError when \<open>section.content[i]\<close> is
  undefined.
\<close>

datatype error = TypeError

text \<open>
  \<^verbatim>\<open>
  let startOffset = 0;
  let endOffset = section.content[i].text.length;
  if (i === startIndex) {
    const offset = getBlockOffset(blockEl, startNode, range.startOffset);
    if (offset !== -1) startOffset = offset;
  }
  if (i === endIndex) {
    const offset = getBlockOffset(blockEl, endNode, range.endOffset);
    if (offset !== -1) endOffset = offset;
  }
  if (startIndex === endIndex && startOffset > endOffset) {
    [startOffset, endOffset] = [endOffset, startOffset];
  }
  \<close>
  The pair \<open>(startOffset, endOffset)\<close> after these statements, for a block with content.
\<close>

definition selectionOffsets ::
  "Section \<Rightarrow> DomRange \<Rightarrow> nat \<Rightarrow> nat \<Rightarrow> nat \<Rightarrow> node \<Rightarrow> int \<times> int" where
  "selectionOffsets sect range' startIndex endIndex i blockEl =
     (let sOff0 = 0;
          eOff0 = int (length (blockText (content sect ! i)));
          sOff1 = (if i = startIndex
                   then (let offset = getBlockOffset blockEl (startContainer range')
                                        (int (startOffset range'))
                         in if offset \<noteq> -1 then offset else sOff0)
                   else sOff0);
          eOff1 = (if i = endIndex
                   then (let offset = getBlockOffset blockEl (endContainer range')
                                        (int (endOffset range'))
                         in if offset \<noteq> -1 then offset else eOff0)
                   else eOff0)
      in if startIndex = endIndex \<and> sOff1 > eOff1 then (eOff1, sOff1) else (sOff1, eOff1))"

text \<open>
  The body of the loop of applyHighlight for the block index \<open>i\<close>:
  \<^verbatim>\<open>
  const blockEl = containerRef.current?.querySelector(`[data-block-index="${i}"]`);
  if (!blockEl) continue;
  ... (selectionOffsets) ...
  if (startOffset < endOffset) {
    const blockHighlights = newHighlights[i] || [];
    blockHighlights.push({ start: startOffset, end: endOffset });
    newHighlights[i] = blockHighlights;
  }
  \<close>
  \<open>querySelector i\<close> is the element that carries \<open>data-block-index = i\<close>, if any:
  renderContent gives the attribute to every block but those of type \<open>separator\<close>.
\<close>

definition applyHighlight_block ::
  "Section \<Rightarrow> (nat \<Rightarrow> node option) \<Rightarrow> DomRange \<Rightarrow> nat \<Rightarrow> nat \<Rightarrow> nat \<Rightarrow> HighlightsState
     \<Rightarrow> error + HighlightsState" where
  "applyHighlight_block sect querySelector range' startIndex endIndex i newHighlights =
     (case querySelector i of
        None \<Rightarrow> Inr newHighlights
      | Some blockEl \<Rightarrow>
          if i \<ge> length (content sect) then Inl TypeError
          else
            (case selectionOffsets sect range' startIndex endIndex i blockEl of
               (sOff, eOff) \<Rightarrow>
                 if sOff < eOff
                 then Inr (setBlock i
                        ((case getBlock newHighlights i of None \<Rightarrow> [] | Some l \<Rightarrow> l)
                           @ [\<lparr>start = sOff, end' = eOff\<rparr>])
                        newHighlights)
                 else Inr newHighlights))"

text \<open>
  \<^verbatim>\<open>for (let i = Math.min(startIndex, endIndex); i <= Math.max(startIndex, endIndex); i++)\<close>
  over the list of the indices; a TypeError ends the loop.
\<close>

fun applyHighlight_loop ::
  "Section \<Rightarrow> (nat \<Rightarrow> node option) \<Rightarrow> DomRange \<Rightarrow> nat \<Rightarrow> nat \<Rightarrow> nat list \<Rightarrow> HighlightsState
     \<Rightarrow> error + HighlightsState" where
  "applyHighlight_loop sect querySelector range' startIndex endIndex [] newHighlights =
     Inr newHighlights"
| "applyHighlight_loop sect querySelector range' startIndex endIndex (i # is) newHighlights =
     (case applyHighlight_block sect querySelector range' startIndex endIndex i newHighlights of
        Inl e \<Rightarrow> Inl e
      | Inr newHighlights' \<Rightarrow>
          applyHighlight_loop sect querySelector range' startIndex endIndex is newHighlights')"

section \<open>JSON.stringify and JSON.parse\<close>

text \<open>
  The state is persisted as JSON text. \<open>JSON.stringify\<close> and \<open>JSON.parse\<close> belong to the
  platform. \<open>JSON.stringify\<close> is modelled on values of type \<open>HighlightsState\<close>, whose JSON
  text is
  \<^verbatim>\<open>{"<blockIndex>":[{"start":<int>,"end":<int>},...],...}\<close>
  without white space. \<open>JSON.parse\<close> is modelled on every text: it follows the JSON grammar
  (white space, literals, numbers, strings with escapes, arrays, objects).
  A string of the model is a list of 8-bit characters; a code unit above 255 in the stored
  text is outside the model.
\<close>

definition digit_char :: "nat \<Rightarrow> char" where
  "digit_char d = ''0123456789'' ! d"

definition is_digit :: "char \<Rightarrow> bool" where
  "is_digit c = (c \<in> set ''0123456789'')"

text \<open>
  The value of a digit: its position in \<open>''0123456789''\<close>.
\<close>

definition digit_val :: "char \<Rightarrow> nat" where
  "digit_val c = length (takeWhile (\<lambda>d. d \<noteq> c) ''0123456789'')"

text \<open>
  The decimal digits of a natural number, without leading zeros.
\<close>

fun show_nat :: "nat \<Rightarrow> string" where
  "show_nat n = (if n < 10 then [digit_char n] else show_nat (n div 10) @ [digit_char (n mod 10)])"

declare show_nat.simps [simp del]

text \<open>
  An integer in decimal notation, with a minus sign when negative.
\<close>

definition show_int :: "int \<Rightarrow> string" where
  "show_int i = (if i < 0 then CHR ''-'' # show_nat (nat (- i)) else show_nat (nat i))"

text \<open>
  The JSON text of \<open>{ start: startOffset, end: endOffset }\<close>: the properties in the order
  of their creation.
\<close>

definition stringify_highlight :: "Highlight \<Rightarrow> string" where
  \<open>stringify_highlight h = ''{"start":'' @ show_int (start h) @ '',"end":'' @ show_int (end' h) @ ''}''\<close>

text \<open>
  The members of an array or object, separated by commas.
\<close>

fun comma_separated :: "string list \<Rightarrow> string" where
  "comma_separated [] = []"
| "comma_separated [x] = x"
| "comma_separated (x # y # rest) = x @ '','' @ comma_separated (y # rest)"

definition stringify_array :: "Highlight list \<Rightarrow> string" where
  "stringify_array hs = ''['' @ comma_separated (map stringify_highlight hs) @ '']''"

text \<open>
  One property of the state object: the key is the block index as a string.
\<close>

definition stringify_entry :: "nat \<times> Highlight list \<Rightarrow> string" where
  \<open>stringify_entry e = ''"'' @ show_nat (fst e) @ ''":'' @ stringify_array (snd e)\<close>

text \<open>
  \<open>JSON.stringify(newHighlights)\<close>.
\<close>

definition JSON_stringify :: "HighlightsState \<Rightarrow> string" where
  "JSON_stringify hl = ''{'' @ comma_separated (map stringify_entry hl) @ ''}''"

definition digits_val :: "string \<Rightarrow> nat" where
  "digits_val ds = foldl (\<lambda>a c. 10 * a + digit_val c) 0 ds"

text \<open>
  Reads a fixed text from the front of the input.
\<close>

definition expect :: "string \<Rightarrow> string \<Rightarrow> string option" where
  "expect lit s = (if take (length lit) s = lit then Some (drop (length lit) s) else None)"

text \<open>
  JSON white space: space, tab, line feed, carriage return.
\<close>

definition is_ws :: "char \<Rightarrow> bool" where
  "is_ws c = (c \<in> set [CHR '' '', CHR 0x09, CHR 0x0A, CHR 0x0D])"

definition skip_ws :: "string \<Rightarrow> string" where
  "skip_ws s = dropWhile is_ws s"

definition starts_with :: "char \<Rightarrow> string \<Rightarrow> bool" where
  "starts_with c s = (s \<noteq> [] \<and> hd s = c)"

text \<open>
  A JSON value as \<open>JSON.parse\<close> reads it. \<open>JNumber m e\<close> is the number \<open>m * 10^e\<close>
  (JavaScript rounds it to a double, which is exact for the integers that occur as offsets).
  A string is the list of its UTF-16 code units. An object is the list of its members in
  the order of the text, repeated keys included.
\<close>

datatype json =
  JNull | JBool bool | JNumber int int | JString "nat list"
  | JArray "json list" | JObject "(nat list \<times> json) list"

text \<open>
  A JSON number: an optional minus sign, an integer part without a leading zero, an optional
  fraction and an optional exponent.
\<close>

definition parse_number :: "string \<Rightarrow> ((int \<times> int) \<times> string) option" where
  "parse_number s =
     (let neg = starts_with (CHR ''-'') s;
          s1 = (if neg then tl s else s);
          ds = takeWhile is_digit s1;
          s2 = dropWhile is_digit s1;
          hasFrac = starts_with (CHR ''.'') s2;
          fs = (if hasFrac then takeWhile is_digit (tl s2) else []);
          s3 = (if hasFrac then dropWhile is_digit (tl s2) else s2);
          hasExp = (starts_with (CHR ''e'') s3 \<or> starts_with (CHR ''E'') s3);
          s4 = (if hasExp then tl s3 else s3);
          expNeg = (hasExp \<and> starts_with (CHR ''-'') s4);
          s5 = (if hasExp \<and> (starts_with (CHR ''-'') s4 \<or> starts_with (CHR ''+'') s4)
                then tl s4 else s4);
          es = (if hasExp then takeWhile is_digit s5 else []);
          s6 = (if hasExp then dropWhile is_digit s5 else s5)
      in if ds = [] \<or> (length ds > 1 \<and> hd ds = CHR ''0'') then None
         else if hasFrac \<and> fs = [] then None
         else if hasExp \<and> es = [] then None
         else Some (((if neg then - 1 else 1) * int (digits_val (ds @ fs)),
                     (if expNeg then - 1 else 1) * int (digits_val es) - int (length fs)),
                    s6))"

text \<open>
  The value of a hexadecimal digit, and of the four digits of a \<open>\uXXXX\<close> escape.
\<close>

definition hex_val :: "char \<Rightarrow> nat option" where
  "hex_val c =
     (if c \<in> set ''0123456789'' then Some (length (takeWhile (\<lambda>d. d \<noteq> c) ''0123456789''))
      else if c \<in> set ''abcdef'' then Some (10 + length (takeWhile (\<lambda>d. d \<noteq> c) ''abcdef''))
      else if c \<in> set ''ABCDEF'' then Some (10 + length (takeWhile (\<lambda>d. d \<noteq> c) ''ABCDEF''))
      else None)"

definition hex4 :: "string \<Rightarrow> nat option" where
  "hex4 s =
     (case map hex_val s of
        [Some a, Some b, Some c, Some d] \<Rightarrow> Some (((a * 16 + b) * 16 + c) * 16 + d)
      | _ \<Rightarrow> None)"

text \<open>
  The code unit of a one-character escape.
\<close>

definition escape_unit :: "char \<Rightarrow> nat option" where
  "escape_unit e =
     (if e = CHR 0x22 then Some 0x22
      else if e = CHR 0x5C then Some 0x5C
      else if e = CHR ''/'' then Some 0x2F
      else if e = CHR ''b'' then Some 0x08
      else if e = CHR ''f'' then Some 0x0C
      else if e = CHR ''n'' then Some 0x0A
      else if e = CHR ''r'' then Some 0x0D
      else if e = CHR ''t'' then Some 0x09
      else None)"

text \<open>
  The characters of a JSON string after its opening quote, up to the closing quote: a
  control character is refused, a backslash starts an escape.
\<close>

fun parse_chars :: "string \<Rightarrow> (nat list \<times> string) option" where
  "parse_chars [] = None"
| "parse_chars (c # r) =
     (if c = CHR 0x22 then Some ([], r)
      else if c = CHR 0x5C then
        (case r of
           [] \<Rightarrow> None
         | e # r' \<Rightarrow>
             if e = CHR ''u'' then
               (case hex4 (take 4 r') of
                  None \<Rightarrow> None
                | Some u \<Rightarrow>
                    (case parse_chars (drop 4 r') of
                       None \<Rightarrow> None
                     | Some (us, rest) \<Rightarrow> Some (u # us, rest)))
             else
               (case escape_unit e of
                  None \<Rightarrow> None
                | Some u \<Rightarrow>
                    (case parse_chars r' of
                       None \<Rightarrow> None
                     | Some (us, rest) \<Rightarrow> Some (u # us, rest))))
      else if (of_char c :: nat) < 0x20 then None
      else (case parse_chars r of
              None \<Rightarrow> None
            | Some (us, rest) \<Rightarrow> Some (of_char c # us, rest)))"

lemma skip_ws_le: "length (skip_ws s) \<le> length s"
  by (simp add: skip_ws_def length_dropWhile_le)

lemma skip_tl_skip_ws_le: "length (skip_ws (tl (skip_ws s))) \<le> length s"
proof -
  have "length (skip_ws (tl (skip_ws s))) \<le> length (tl (skip_ws s))" by (rule skip_ws_le)
  also have "\<dots> \<le> length (skip_ws s)" by simp
  also have "\<dots> \<le> length s" by (rule skip_ws_le)
  finally show ?thesis .
qed

text \<open>
  The JSON grammar: a value, the elements of an array after its opening bracket, the
  members of an object after its opening brace. The tests on lengths say that reading a
  value or a key does not lengthen the input; they always hold, and make the recursion
  well-founded.
\<close>

function parse_value :: "string \<Rightarrow> (json \<times> string) option"
  and parse_elements :: "string \<Rightarrow> (json list \<times> string) option"
  and parse_members :: "string \<Rightarrow> ((nat list \<times> json) list \<times> string) option" where
  "parse_value s =
     (case s of
        [] \<Rightarrow> None
      | c # r \<Rightarrow>
          if c = CHR ''{'' then
            (if starts_with (CHR ''}'') (skip_ws r) then Some (JObject [], tl (skip_ws r))
             else (case parse_members (skip_ws r) of
                     None \<Rightarrow> None
                   | Some (ms, rest) \<Rightarrow> Some (JObject ms, rest)))
          else if c = CHR ''['' then
            (if starts_with (CHR '']'') (skip_ws r) then Some (JArray [], tl (skip_ws r))
             else (case parse_elements (skip_ws r) of
                     None \<Rightarrow> None
                   | Some (vs, rest) \<Rightarrow> Some (JArray vs, rest)))
          else if c = CHR 0x22 then
            (case parse_chars r of
               None \<Rightarrow> None
             | Some (us, rest) \<Rightarrow> Some (JString us, rest))
          else if c = CHR ''t'' then map_option (Pair (JBool True)) (expect ''true'' s)
          else if c = CHR ''f'' then map_option (Pair (JBool False)) (expect ''false'' s)
          else if c = CHR ''n'' then map_option (Pair JNull) (expect ''null'' s)
          else (case parse_number s of
                  None \<Rightarrow> None
                | Some ((m, e), rest) \<Rightarrow> Some (JNumber m e, rest)))"
| "parse_elements s =
     (case parse_value s of
        None \<Rightarrow> None
      | Some (v, r) \<Rightarrow>
          if length r < length s then
            (if starts_with (CHR '']'') (skip_ws r) then Some ([v], tl (skip_ws r))
             else if starts_with (CHR '','') (skip_ws r) then
               (case parse_elements (skip_ws (tl (skip_ws r))) of
                  None \<Rightarrow> None
                | Some (vs, rest) \<Rightarrow> Some (v # vs, rest))
             else None)
          else None)"
| "parse_members s =
     (if starts_with (CHR 0x22) s then
        (case parse_chars (tl s) of
           None \<Rightarrow> None
         | Some (k, r1) \<Rightarrow>
             if starts_with (CHR '':'') (skip_ws r1) \<and> length r1 < length s then
               (case parse_value (skip_ws (tl (skip_ws r1))) of
                  None \<Rightarrow> None
                | Some (v, r2) \<Rightarrow>
                    if length r2 < length s then
                      (if starts_with (CHR ''}'') (skip_ws r2) then Some ([(k, v)], tl (skip_ws r2))
                       else if starts_with (CHR '','') (skip_ws r2) then
                         (case parse_members (skip_ws (tl (skip_ws r2))) of
                            None \<Rightarrow> None
                          | Some (ms, rest) \<Rightarrow> Some ((k, v) # ms, rest))
                       else None)
                    else None)
             else None)
      else None)"
  by pat_completeness auto

termination
proof (relation "measure (\<lambda>x. case x of
         Inl s \<Rightarrow> 2 * length s + 1
       | Inr (Inl s) \<Rightarrow> 2 * length s + 2
       | Inr (Inr s) \<Rightarrow> 2 * length s + 2)", goal_cases)
  case 1
  show ?case by simp
next
  case (2 s c r)
  then show ?case using skip_ws_le [of r] by simp
next
  case (3 s c r)
  then show ?case using skip_ws_le [of r] by simp
next
  case (4 s)
  show ?case by simp
next
  case (5 s x v r)
  then show ?case using skip_tl_skip_ws_le [of r] by simp
next
  case (6 s x k r1)
  then show ?case using skip_tl_skip_ws_le [of r1] by simp
next
  case (7 s x k r1 y v r2)
  then show ?case using skip_tl_skip_ws_le [of r2] by simp
qed

declare parse_value.simps [simp del] parse_elements.simps [simp del] parse_members.simps [simp del]

text \<open>
  \<open>JSON.parse(saved)\<close>: one value between optional white space. \<open>None\<close> stands for the
  SyntaxError that \<open>JSON.parse\<close> throws.
\<close>

definition JSON_parse :: "string \<Rightarrow> json option" where
  "JSON_parse s =
     (case parse_value (skip_ws s) of
        None \<Rightarrow> None
      | Some (v, r) \<Rightarrow> if skip_ws r = [] then Some v else None)"

text \<open>
  The code stores the parsed value in the state without a check
  (\<open>setHighlights(JSON.parse(saved))\<close>, where \<open>JSON.parse\<close> has type \<open>any\<close>). The state of
  the model has type \<open>HighlightsState\<close>; \<open>decode_state\<close> reads a JSON value as a state of
  that type when the model can represent it: an object whose keys are array indices in
  decimal notation and whose values are arrays of objects with exactly the properties
  \<open>start\<close> and \<open>end\<close>, in this order, with integer values. As in a JavaScript
  object, a repeated key keeps its last value and the keys ascend. Every other value is
  left to the caller (\<open>None\<close>). \<open>decode_int\<close> reads a number that is an integer.
\<close>

definition decode_int :: "json \<Rightarrow> int option" where
  "decode_int v =
     (case v of
        JNumber m e \<Rightarrow>
          if e \<ge> 0 then Some (m * 10 ^ nat e)
          else if m mod 10 ^ nat (- e) = 0 then Some (m div 10 ^ nat (- e))
          else None
      | _ \<Rightarrow> None)"

definition decode_highlight :: "json \<Rightarrow> Highlight option" where
  "decode_highlight v =
     (case v of
        JObject [(k1, a), (k2, b)] \<Rightarrow>
          if k1 = map of_char ''start'' \<and> k2 = map of_char ''end'' then
            (case decode_int a of
               None \<Rightarrow> None
             | Some x \<Rightarrow>
                 (case decode_int b of
                    None \<Rightarrow> None
                  | Some y \<Rightarrow> Some \<lparr>start = x, end' = y\<rparr>))
          else None
      | _ \<Rightarrow> None)"

definition decode_array :: "json \<Rightarrow> Highlight list option" where
  "decode_array v = (case v of JArray vs \<Rightarrow> those (map decode_highlight vs) | _ \<Rightarrow> None)"

definition decode_index :: "nat list \<Rightarrow> nat option" where
  "decode_index k =
     (if k \<noteq> [] \<and> list_all (\<lambda>u. 48 \<le> u \<and> u \<le> 57) k \<and> \<not> (length k > 1 \<and> hd k = 48)
      then Some (foldl (\<lambda>a u. 10 * a + (u - 48)) 0 k)
      else None)"

definition decode_entry :: "nat list \<times> json \<Rightarrow> (nat \<times> Highlight list) option" where
  "decode_entry m =
     (case decode_index (fst m) of
        None \<Rightarrow> None
      | Some i \<Rightarrow> (case decode_array (snd m) of None \<Rightarrow> None | Some hs \<Rightarrow> Some (i, hs)))"

definition decode_state :: "json \<Rightarrow> HighlightsState option" where
  "decode_state v =
     (case v of
        JObject ms \<Rightarrow>
          (case those (map decode_entry ms) of
             None \<Rightarrow> None
           | Some entries \<Rightarrow> Some (fold (\<lambda>(i, hs) obj. setBlock i hs obj) entries []))
      | _ \<Rightarrow> None)"

text \<open>
  The JSON values of a range, of a property of the state and of the state: what
  \<open>JSON.parse\<close> reads from the text that \<open>JSON.stringify\<close> writes
  (\<open>JSON_parse_stringify\<close>).
\<close>

definition json_of_highlight :: "Highlight \<Rightarrow> json" where
  "json_of_highlight h =
     JObject [(map of_char ''start'', JNumber (start h) 0), (map of_char ''end'', JNumber (end' h) 0)]"

definition json_of_entry :: "nat \<times> Highlight list \<Rightarrow> nat list \<times> json" where
  "json_of_entry e = (map of_char (show_nat (fst e)), JArray (map json_of_highlight (snd e)))"

definition json_of_state :: "HighlightsState \<Rightarrow> json" where
  "json_of_state hl = JObject (map json_of_entry hl)"

text \<open>
  A character that stands for itself inside a JSON string.
\<close>

definition plain_char :: "char \<Rightarrow> bool" where
  "plain_char c = (c \<noteq> CHR 0x22 \<and> c \<noteq> CHR 0x5C \<and> \<not> (of_char c :: nat) < 0x20)"

section \<open>The Reader component: load effect, saveHighlights, applyHighlight\<close>

text \<open>
  The state that the Reader component reads and writes: the React state
  \<^verbatim>\<open>const [highlights, setHighlights] = useState<HighlightsState>({});\<close>
  and the browser's \<open>localStorage\<close>, a map from keys to strings.
\<close>

record ReaderState =
  highlights :: HighlightsState
  localStorage :: "string \<Rightarrow> string option"

text \<open>
  \<^verbatim>\<open>`highlights-${section.id}`\<close>
\<close>

definition storageKey :: "Section \<Rightarrow> string" where
  "storageKey sect = ''highlights-'' @ sectionId sect"

text \<open>
  \<^verbatim>\<open>
  const saveHighlights = (newHighlights: HighlightsState) => {
    setHighlights(newHighlights);
    localStorage.setItem(`highlights-${section.id}`, JSON.stringify(newHighlights));
  };
  \<close>
\<close>

definition saveHighlights :: "Section \<Rightarrow> HighlightsState \<Rightarrow> ReaderState \<Rightarrow> ReaderState" where
  "saveHighlights sect newHighlights st =
     st\<lparr>highlights := newHighlights,
        localStorage := (localStorage st)(storageKey sect \<mapsto> JSON_stringify newHighlights)\<rparr>"

text \<open>
  The effect that runs when \<open>section.id\<close> changes:
  \<^verbatim>\<open>
  const saved = localStorage.getItem(`highlights-${section.id}`);
  if (saved) {
    try {
      setHighlights(JSON.parse(saved));
    } catch (e) {
      console.error("Failed to load highlights", e);
    }
  } else {
    setHighlights({});
  }
  \<close>
  \<open>if (saved)\<close> is false for \<open>null\<close> and for the empty string. The \<open>catch\<close> branch
  only logs: the state is left as it was. When the text parses to a value that
  \<open>decode_state\<close> does not read, the code stores that value all the same; the result is
  then \<open>Inl\<close> of the value, since the state of the model cannot hold it.
\<close>

definition loadHighlights :: "Section \<Rightarrow> ReaderState \<Rightarrow> json + ReaderState" where
  "loadHighlights sect st =
     (case localStorage st (storageKey sect) of
        None \<Rightarrow> Inr (st\<lparr>highlights := []\<rparr>)
      | Some saved \<Rightarrow>
          if saved = [] then Inr (st\<lparr>highlights := []\<rparr>)
          else (case JSON_parse saved of
                  None \<Rightarrow> Inr st
                | Some v \<Rightarrow>
                    (case decode_state v of
                       Some parsed \<Rightarrow> Inr (st\<lparr>highlights := parsed\<rparr>)
                     | None \<Rightarrow> Inl v)))"

text \<open>
  applyHighlight from the copy of the state to the end:
  \<^verbatim>\<open>
  const newHighlights = { ...highlights };
  for (...) { ... }
  saveHighlights(newHighlights);
  \<close>
  \<open>startIndex\<close> and \<open>endIndex\<close> are the block indices of the wrappers of the two
  endpoints. The statements before (a collapsed selection or an endpoint outside every
  block returns early) are not modelled. A TypeError leaves the handler before
  \<open>saveHighlights\<close>.
\<close>

definition applyHighlight ::
  "Section \<Rightarrow> (nat \<Rightarrow> node option) \<Rightarrow> DomRange \<Rightarrow> nat \<Rightarrow> nat \<Rightarrow> ReaderState
     \<Rightarrow> error + ReaderState" where
  "applyHighlight sect querySelector range' startIndex endIndex st =
     (case applyHighlight_loop sect querySelector range' startIndex endIndex
             [min startIndex endIndex ..< Suc (max startIndex endIndex)] (highlights st) of
        Inl e \<Rightarrow> Inl e
      | Inr newHighlights \<Rightarrow> Inr (saveHighlights sect newHighlights st))"

section \<open>Predicates of the data model\<close>

text \<open>
  The range invariant of the data model: \<open>0 <= start < end <= len(block.text)\<close>.
\<close>

definition validRange :: "nat \<Rightarrow> Highlight \<Rightarrow> bool" where
  "validRange len h = (0 \<le> start h \<and> start h < end' h \<and> end' h \<le> int len)"

text \<open>
  Every stored range belongs to a block of the section and satisfies the range invariant.
\<close>

definition validHighlights :: "Section \<Rightarrow> HighlightsState \<Rightarrow> bool" where
  "validHighlights sect hl =
     list_all (\<lambda>(i, hs). i < length (content sect) \<and>
                 list_all (validRange (length (blockText (content sect ! i)))) hs) hl"

text \<open>
  Every stored list is sorted by \<open>start\<close> and its ranges neither overlap nor touch.
\<close>

definition mergedHighlights :: "HighlightsState \<Rightarrow> bool" where
  "mergedHighlights hl = list_all (\<lambda>(i, hs). sorted (map start hs) \<and> separated hs) hl"

text \<open>
  \<open>newHighlights[i] || []\<close>: the ranges of a block, empty when the block has no entry.
\<close>

definition blockRanges :: "HighlightsState \<Rightarrow> nat \<Rightarrow> Highlight list" where
  "blockRanges hl i = (case getBlock hl i of None \<Rightarrow> [] | Some l \<Rightarrow> l)"

text \<open>
  The part of the range invariant that applyHighlight maintains: \<open>0 <= start < end\<close>.
\<close>

definition properRange :: "Highlight \<Rightarrow> bool" where
  "properRange h = (0 \<le> start h \<and> start h < end' h)"

definition properHighlights :: "HighlightsState \<Rightarrow> bool" where
  "properHighlights hl = list_all (\<lambda>(i, hs). list_all properRange hs) hl"

section \<open>Properties\<close>

lemma mergeLoop_acc: "mergeLoop c rest acc = acc @ mergeLoop c rest []"
proof (induction rest arbitrary: c acc)
  case Nil
  show ?case by simp
next
  case (Cons s rest)
  show ?case
  proof (cases "end' c \<ge> start s")
    case True
    then show ?thesis using Cons.IH [of "c\<lparr>end' := max (end' c) (end' s)\<rparr>" acc] by simp
  next
    case False
    then show ?thesis
      using Cons.IH [of s "acc @ [c]"] Cons.IH [of s "[c]"] by simp
  qed
qed

lemma mergeLoop_extend:
  "end' c \<ge> start s \<Longrightarrow>
   mergeLoop c (s # rest) [] = mergeLoop (c\<lparr>end' := max (end' c) (end' s)\<rparr>) rest []"
  by simp

lemma mergeLoop_emit:
  "\<not> end' c \<ge> start s \<Longrightarrow> mergeLoop c (s # rest) [] = c # mergeLoop s rest []"
  using mergeLoop_acc [of s rest "[c]"] by simp

declare mergeLoop.simps(2) [simp del]

lemma mergeLoop_hd:
  "\<exists>h out. mergeLoop c rest [] = h # out \<and> start h = start c \<and> end' c \<le> end' h"
proof (induction rest arbitrary: c)
  case Nil
  show ?case by simp
next
  case (Cons s rest)
  show ?case
  proof (cases "end' c \<ge> start s")
    case True
    obtain h out where "mergeLoop (c\<lparr>end' := max (end' c) (end' s)\<rparr>) rest [] = h # out"
      "start h = start c" "max (end' c) (end' s) \<le> end' h"
      using Cons.IH [of "c\<lparr>end' := max (end' c) (end' s)\<rparr>"] by auto
    then show ?thesis using True by (simp add: mergeLoop_extend)
  next
    case False
    then show ?thesis by (simp add: mergeLoop_emit)
  qed
qed

lemma mergeLoop_separated: "separated (mergeLoop c rest [])"
proof (induction rest arbitrary: c)
  case Nil
  show ?case by simp
next
  case (Cons s rest)
  show ?case
  proof (cases "end' c \<ge> start s")
    case True
    then show ?thesis
      using Cons.IH [of "c\<lparr>end' := max (end' c) (end' s)\<rparr>"] by (simp add: mergeLoop_extend)
  next
    case False
    obtain h out where h: "mergeLoop s rest [] = h # out" "start h = start s"
      using mergeLoop_hd [of s rest] by blast
    have "separated (h # out)" using Cons.IH [of s] h by simp
    then show ?thesis using False h by (simp add: mergeLoop_emit)
  qed
qed

lemma mergeLoop_starts: "x \<in> set (mergeLoop c rest []) \<Longrightarrow> \<exists>y \<in> set (c # rest). start x = start y"
proof (induction rest arbitrary: c)
  case Nil
  then show ?case by simp
next
  case (Cons s rest)
  show ?case
  proof (cases "end' c \<ge> start s")
    case True
    then have "x \<in> set (mergeLoop (c\<lparr>end' := max (end' c) (end' s)\<rparr>) rest [])"
      using Cons.prems by (simp add: mergeLoop_extend)
    from Cons.IH [OF this] show ?thesis by auto
  next
    case False
    then have "x = c \<or> x \<in> set (mergeLoop s rest [])"
      using Cons.prems by (simp add: mergeLoop_emit)
    then show ?thesis using Cons.IH [of s] by auto
  qed
qed

lemma mergeLoop_sorted:
  "sorted (map start (c # rest)) \<Longrightarrow> sorted (map start (mergeLoop c rest []))"
proof (induction rest arbitrary: c)
  case Nil
  show ?case by simp
next
  case (Cons s rest)
  show ?case
  proof (cases "end' c \<ge> start s")
    case True
    have "sorted (map start (c\<lparr>end' := max (end' c) (end' s)\<rparr> # rest))"
      using Cons.prems by simp
    from Cons.IH [OF this] show ?thesis using True by (simp add: mergeLoop_extend)
  next
    case False
    have s: "sorted (map start (s # rest))" using Cons.prems by simp
    have "\<forall>x \<in> set (mergeLoop s rest []). start c \<le> start x"
    proof
      fix x assume "x \<in> set (mergeLoop s rest [])"
      then obtain y where "y \<in> set (s # rest)" "start x = start y"
        using mergeLoop_starts by blast
      then show "start c \<le> start x" using Cons.prems by auto
    qed
    then show ?thesis using False Cons.IH [OF s] by (simp add: mergeLoop_emit)
  qed
qed

lemma mergeLoop_nondegenerate:
  "\<forall>h \<in> set (c # rest). start h < end' h \<Longrightarrow> \<forall>h \<in> set (mergeLoop c rest []). start h < end' h"
proof (induction rest arbitrary: c)
  case Nil
  then show ?case by simp
next
  case (Cons s rest)
  show ?case
  proof (cases "end' c \<ge> start s")
    case True
    have "\<forall>h \<in> set (c\<lparr>end' := max (end' c) (end' s)\<rparr> # rest). start h < end' h"
      using Cons.prems by auto
    from Cons.IH [OF this] show ?thesis using True by (simp add: mergeLoop_extend)
  next
    case False
    have "\<forall>h \<in> set (s # rest). start h < end' h" using Cons.prems by simp
    from Cons.IH [OF this] show ?thesis using False Cons.prems by (simp add: mergeLoop_emit)
  qed
qed

lemma mergeLoop_separated_id: "separated (c # rest) \<Longrightarrow> mergeLoop c rest [] = c # rest"
proof (induction rest arbitrary: c)
  case Nil
  show ?case by simp
next
  case (Cons s rest)
  have "separated (s # rest)" "\<not> end' c \<ge> start s" using Cons.prems by auto
  then show ?case using Cons.IH [of s] by (simp add: mergeLoop_emit)
qed

lemma RangeMerger_Nil: "RangeMerger [] = []"
  by (simp add: RangeMerger_def)

lemma RangeMerger_separated: "separated (RangeMerger hs)"
proof (cases "sort_key start hs")
  case Nil
  then show ?thesis by (simp add: RangeMerger_def)
next
  case (Cons c rest)
  then show ?thesis using mergeLoop_separated [of c rest] by (simp add: RangeMerger_def)
qed

lemma RangeMerger_sorted: "sorted (map start (RangeMerger hs))"
proof (cases "sort_key start hs")
  case Nil
  then show ?thesis by (simp add: RangeMerger_def)
next
  case (Cons c rest)
  have "sorted (map start (sort_key start hs))" by (rule sorted_sort_key)
  then have "sorted (map start (c # rest))" by (simp only: Cons)
  then have "sorted (map start (mergeLoop c rest []))" by (rule mergeLoop_sorted)
  then show ?thesis by (simp add: RangeMerger_def Cons)
qed

lemma RangeMerger_nondegenerate:
  assumes "\<forall>h \<in> set hs. start h < end' h"
  shows "\<forall>h \<in> set (RangeMerger hs). start h < end' h"
proof (cases "sort_key start hs")
  case Nil
  then show ?thesis by (simp add: RangeMerger_def)
next
  case (Cons c rest)
  have "set (sort_key start hs) = set hs" by (rule set_sort)
  then have "set (c # rest) = set hs" by (simp only: Cons)
  then have "\<forall>h \<in> set (c # rest). start h < end' h" using assms by blast
  then have "\<forall>h \<in> set (mergeLoop c rest []). start h < end' h"
    by (rule mergeLoop_nondegenerate)
  then show ?thesis by (simp add: RangeMerger_def Cons)
qed

lemma RangeMerger_fixpoint:
  assumes "sorted (map start xs)" "separated xs"
  shows "RangeMerger xs = xs"
proof (cases xs)
  case Nil
  then show ?thesis by (simp add: RangeMerger_def)
next
  case (Cons c rest)
  have "sort_key start xs = xs" using assms(1) by (rule sort_key_id_if_sorted)
  moreover have "mergeLoop c rest [] = c # rest"
    using assms(2) Cons mergeLoop_separated_id by simp
  ultimately show ?thesis using Cons by (simp add: RangeMerger_def)
qed

text \<open>
  C6 (as amended). For every input list of ranges (empty, unsorted, overlapping or
  degenerate) the output of the merge pass is sorted by \<open>start\<close> and pairwise strictly
  separated, \<open>output[i].end < output[i+1].start\<close>; the empty input yields the empty
  output; and every output range satisfies \<open>start < end\<close> provided every input range
  does.
\<close>

theorem RangeMerger_output:
  "sorted (map start (RangeMerger hs)) \<and> separated (RangeMerger hs) \<and>
   ((\<forall>h \<in> set hs. start h < end' h) \<longrightarrow> (\<forall>h \<in> set (RangeMerger hs). start h < end' h)) \<and>
   RangeMerger [] = []"
  using RangeMerger_sorted [of hs] RangeMerger_separated [of hs]
    RangeMerger_nondegenerate [of hs] RangeMerger_Nil by blast

text \<open>
  The merge pass on an unsorted, overlapping input.
\<close>

theorem RangeMerger_output_witness:
  "RangeMerger [\<lparr>start = 7, end' = 15\<rparr>, \<lparr>start = 20, end' = 25\<rparr>, \<lparr>start = 4, end' = 9\<rparr>]
     = [\<lparr>start = 4, end' = 15\<rparr>, \<lparr>start = 20, end' = 25\<rparr>] \<and>
   sorted (map start (RangeMerger [\<lparr>start = 7, end' = 15\<rparr>, \<lparr>start = 20, end' = 25\<rparr>,
      \<lparr>start = 4, end' = 9\<rparr>])) \<and>
   separated (RangeMerger [\<lparr>start = 7, end' = 15\<rparr>, \<lparr>start = 20, end' = 25\<rparr>,
      \<lparr>start = 4, end' = 9\<rparr>]) \<and>
   list_all (\<lambda>h. start h < end' h) (RangeMerger [\<lparr>start = 7, end' = 15\<rparr>,
      \<lparr>start = 20, end' = 25\<rparr>, \<lparr>start = 4, end' = 9\<rparr>])"
  using RangeMerger_output [of "[\<lparr>start = 7, end' = 15\<rparr>, \<lparr>start = 20, end' = 25\<rparr>,
      \<lparr>start = 4, end' = 9\<rparr>]"]
  by (simp add: RangeMerger_def mergeLoop.simps)

text \<open>
  C6 as stated fails on a degenerate input: the merge pass does not filter, so the range
  \<open>{5, 5}\<close> is returned unchanged and does not satisfy \<open>start < end\<close>.
\<close>

theorem RangeMerger_degenerate_counterexample:
  "RangeMerger [\<lparr>start = 5, end' = 5\<rparr>] = [\<lparr>start = 5, end' = 5\<rparr>] \<and>
   \<not> start \<lparr>start = 5, end' = 5\<rparr> < end' \<lparr>start = 5, end' = 5\<rparr>"
  by (simp add: RangeMerger_def)

text \<open>
  C7. The merge pass is idempotent: \<open>merge(merge(x)) = merge(x)\<close> for every list of
  ranges \<open>x\<close>.
\<close>

theorem RangeMerger_idempotent: "RangeMerger (RangeMerger x) = RangeMerger x"
  using RangeMerger_sorted [of x] RangeMerger_separated [of x] by (rule RangeMerger_fixpoint)

lemma clampIndex_bounds: "0 \<le> clampIndex text x \<and> clampIndex text x \<le> int (length text)"
  by (simp add: clampIndex_def)

lemma clampIndex_mono: "x \<le> y \<Longrightarrow> clampIndex text x \<le> clampIndex text y"
  by (simp add: clampIndex_def)

lemma slice_take:
  assumes "0 \<le> a" "a \<le> b" "b \<le> int (length text)"
  shows "take (nat a) text @ slice text a b = take (nat b) text"
proof -
  have s: "slice text a b = take (nat (b - a)) (drop (nat a) text)"
    using assms by (simp add: slice_def Let_def min_def)
  have "nat b = nat a + nat (b - a)" using assms by simp
  then have "take (nat b) text = take (nat a) text @ take (nat (b - a)) (drop (nat a) text)"
    by (simp only: take_add)
  then show ?thesis using s by simp
qed

lemma sliceFrom_take:
  assumes "0 \<le> a" "a \<le> int (length text)"
  shows "take (nat a) text @ sliceFrom text a = text"
  using slice_take [OF assms(1) assms(2), of "text"] by (simp add: sliceFrom_def)

lemma renderLoop_concat:
  assumes "0 \<le> lastIndex" "lastIndex \<le> int (length text)" "chain text lastIndex hs"
    "concat (map partText parts) = take (nat lastIndex) text"
  shows "concat (map partText (fst (renderLoop text hs parts lastIndex)))
           = take (nat (snd (renderLoop text hs parts lastIndex))) text \<and>
         0 \<le> snd (renderLoop text hs parts lastIndex) \<and>
         snd (renderLoop text hs parts lastIndex) \<le> int (length text)"
  using assms
proof (induction hs arbitrary: parts lastIndex)
  case Nil
  then show ?case by simp
next
  case (Cons h hs)
  define st where "st = clampIndex text (start h)"
  define en where "en = clampIndex text (end' h)"
  define parts1 where
    "parts1 = (if st > lastIndex then parts @ [TextSpan (slice text lastIndex st)] else parts)"
  define parts2 where "parts2 = parts1 @ [HighlightSpan (slice text st en)]"
  have step: "renderLoop text (h # hs) parts lastIndex = renderLoop text hs parts2 en"
    by (simp add: st_def en_def parts1_def parts2_def Let_def)
  have b: "lastIndex \<le> st" "st \<le> en" "chain text en hs"
    using Cons.prems(3) by (simp_all add: st_def en_def)
  have en: "0 \<le> en" "en \<le> int (length text)"
    using clampIndex_bounds [of "text" "end' h"] by (simp_all add: en_def)
  have st: "0 \<le> st" "st \<le> int (length text)"
    using clampIndex_bounds [of "text" "start h"] by (simp_all add: st_def)
  have p1: "concat (map partText parts1) = take (nat st) text"
  proof (cases "st > lastIndex")
    case True
    have "take (nat lastIndex) text @ slice text lastIndex st = take (nat st) text"
      using Cons.prems(1) b(1) st(2) by (rule slice_take)
    then show ?thesis using True Cons.prems(4) by (simp add: parts1_def)
  next
    case False
    then have "st = lastIndex" using b(1) by simp
    then show ?thesis using Cons.prems(4) by (simp add: parts1_def)
  qed
  have "take (nat st) text @ slice text st en = take (nat en) text"
    using st(1) b(2) en(2) by (rule slice_take)
  then have p2: "concat (map partText parts2) = take (nat en) text"
    using p1 by (simp add: parts2_def)
  from Cons.IH [OF en(1) en(2) b(3) p2] show ?case by (simp only: step)
qed

lemma renderMerged_concat:
  assumes "chain text 0 hs"
  shows "concat (map partText (renderMerged text hs)) = text"
proof -
  obtain parts lastIndex where r: "renderLoop text hs [] 0 = (parts, lastIndex)"
    by (cases "renderLoop text hs [] 0") auto
  have "concat (map partText (fst (renderLoop text hs [] 0)))
           = take (nat (snd (renderLoop text hs [] 0))) text \<and>
         0 \<le> snd (renderLoop text hs [] 0) \<and>
         snd (renderLoop text hs [] 0) \<le> int (length text)"
    using assms by (intro renderLoop_concat) simp_all
  then have c: "concat (map partText parts) = take (nat lastIndex) text"
    "0 \<le> lastIndex" "lastIndex \<le> int (length text)"
    by (simp_all add: r)
  show ?thesis
  proof (cases "lastIndex < int (length text)")
    case True
    then show ?thesis using c sliceFrom_take [OF c(2) c(3)] by (simp add: renderMerged_def r)
  next
    case False
    then have "nat lastIndex = length text" using c(3) by simp
    then show ?thesis using False c(1) by (simp add: renderMerged_def r)
  qed
qed

lemma separated_chain:
  assumes "separated hs" "\<forall>h \<in> set hs. start h \<le> end' h"
    "hs \<noteq> [] \<longrightarrow> lastIndex \<le> clampIndex text (start (hd hs))"
  shows "chain text lastIndex hs"
  using assms
proof (induction hs arbitrary: lastIndex)
  case Nil
  show ?case by simp
next
  case (Cons h hs)
  have 1: "lastIndex \<le> clampIndex text (start h)" using Cons.prems(3) by simp
  have 2: "clampIndex text (start h) \<le> clampIndex text (end' h)"
    using Cons.prems(2) by (simp add: clampIndex_mono)
  have 3: "separated hs" using Cons.prems(1) by (cases hs) simp_all
  have 4: "\<forall>h \<in> set hs. start h \<le> end' h" using Cons.prems(2) by simp
  have 5: "hs \<noteq> [] \<longrightarrow> clampIndex text (end' h) \<le> clampIndex text (start (hd hs))"
    using Cons.prems(1) by (cases hs) (simp_all add: clampIndex_mono)
  from Cons.IH [OF 3 4 5] 1 2 show ?case by simp
qed

lemma mergeLoop_ordered:
  "\<forall>h \<in> set (c # rest). start h \<le> end' h \<Longrightarrow> \<forall>h \<in> set (mergeLoop c rest []). start h \<le> end' h"
proof (induction rest arbitrary: c)
  case Nil
  then show ?case by simp
next
  case (Cons s rest)
  show ?case
  proof (cases "end' c \<ge> start s")
    case True
    have "\<forall>h \<in> set (c\<lparr>end' := max (end' c) (end' s)\<rparr> # rest). start h \<le> end' h"
      using Cons.prems by auto
    from Cons.IH [OF this] show ?thesis using True by (simp add: mergeLoop_extend)
  next
    case False
    have "\<forall>h \<in> set (s # rest). start h \<le> end' h" using Cons.prems by simp
    from Cons.IH [OF this] show ?thesis using False Cons.prems by (simp add: mergeLoop_emit)
  qed
qed

lemma RangeMerger_ordered:
  assumes "\<forall>h \<in> set hs. start h \<le> end' h"
  shows "\<forall>h \<in> set (RangeMerger hs). start h \<le> end' h"
proof (cases "sort_key start hs")
  case Nil
  then show ?thesis by (simp add: RangeMerger_def)
next
  case (Cons c rest)
  have "set (sort_key start hs) = set hs" by (rule set_sort)
  then have "set (c # rest) = set hs" by (simp only: Cons)
  then have "\<forall>h \<in> set (c # rest). start h \<le> end' h" using assms by blast
  then have "\<forall>h \<in> set (mergeLoop c rest []). start h \<le> end' h"
    by (rule mergeLoop_ordered)
  then show ?thesis by (simp add: RangeMerger_def Cons)
qed

lemma renderLoop_highlights:
  "map partText (filter isHighlightSpan (fst (renderLoop text hs parts lastIndex)))
     = map partText (filter isHighlightSpan parts)
       @ map (\<lambda>h. slice text (clampIndex text (start h)) (clampIndex text (end' h))) hs"
proof (induction hs arbitrary: parts lastIndex)
  case Nil
  show ?case by simp
next
  case (Cons h hs)
  define st where "st = clampIndex text (start h)"
  define en where "en = clampIndex text (end' h)"
  define parts1 where
    "parts1 = (if st > lastIndex then parts @ [TextSpan (slice text lastIndex st)] else parts)"
  define parts2 where "parts2 = parts1 @ [HighlightSpan (slice text st en)]"
  have step: "renderLoop text (h # hs) parts lastIndex = renderLoop text hs parts2 en"
    by (simp add: st_def en_def parts1_def parts2_def Let_def)
  have "map partText (filter isHighlightSpan parts2)
      = map partText (filter isHighlightSpan parts) @ [slice text st en]"
    by (simp add: parts2_def parts1_def)
  then have "map partText (filter isHighlightSpan (fst (renderLoop text hs parts2 en)))
      = map partText (filter isHighlightSpan parts)
        @ map (\<lambda>h. slice text (clampIndex text (start h)) (clampIndex text (end' h))) (h # hs)"
    using Cons.IH [of parts2 en] by (simp add: st_def en_def)
  then show ?case by (simp only: step)
qed

lemma renderMerged_highlights:
  "map partText (filter isHighlightSpan (renderMerged text hs))
     = map (\<lambda>h. slice text (clampIndex text (start h)) (clampIndex text (end' h))) hs"
proof -
  obtain parts lastIndex where r: "renderLoop text hs [] 0 = (parts, lastIndex)"
    by (cases "renderLoop text hs [] 0") auto
  have "map partText (filter isHighlightSpan (fst (renderLoop text hs [] 0)))
     = map (\<lambda>h. slice text (clampIndex text (start h)) (clampIndex text (end' h))) hs"
    using renderLoop_highlights [of "text" hs "[]" 0] by simp
  then show ?thesis by (simp add: renderMerged_def r)
qed

text \<open>
  C5 (as amended). For every text and every range list whose ranges have
  \<open>start <= end\<close> (the empty list, an absent list and ranges beyond the text length
  included), the concatenation of the texts of the rendered parts is the input text; and
  for every range list the highlighted parts are the slices of the text at the bounds of
  the merged ranges, each clamped to \<open>[0, len(text)]\<close>.
\<close>

theorem renderSegments_concat:
  "concat (map partText (renderSegments text None)) = text \<and>
   ((\<forall>h \<in> set hs. start h \<le> end' h) \<longrightarrow>
      concat (map partText (renderSegments text (Some hs))) = text) \<and>
   map partText (filter isHighlightSpan (renderSegments text (Some hs)))
     = map (\<lambda>h. slice text (clampIndex text (start h)) (clampIndex text (end' h)))
         (RangeMerger hs)"
proof (intro conjI impI)
  show "map partText (filter isHighlightSpan (renderSegments text (Some hs)))
     = map (\<lambda>h. slice text (clampIndex text (start h)) (clampIndex text (end' h)))
         (RangeMerger hs)"
    by (cases "hs = []") (simp_all add: renderSegments_def RangeMerger_Nil renderMerged_highlights)
next
  show "concat (map partText (renderSegments text None)) = text"
    by (simp add: renderSegments_def)
next
  assume a: "\<forall>h \<in> set hs. start h \<le> end' h"
  show "concat (map partText (renderSegments text (Some hs))) = text"
  proof (cases "hs = []")
    case True
    then show ?thesis by (simp add: renderSegments_def)
  next
    case False
    have "chain text 0 (RangeMerger hs)"
      using RangeMerger_separated [of hs] RangeMerger_ordered [OF a]
        clampIndex_bounds [of "text"] by (intro separated_chain) simp_all
    then have "concat (map partText (renderMerged text (RangeMerger hs))) = text"
      by (rule renderMerged_concat)
    then show ?thesis using False by (simp add: renderSegments_def)
  qed
qed

text \<open>
  Rendering two ranges that reach beyond both ends of the text.
\<close>

theorem renderSegments_concat_witness:
  "renderSegments ''abcdefgh'' (Some [\<lparr>start = 5, end' = 20\<rparr>, \<lparr>start = -3, end' = 2\<rparr>])
     = [HighlightSpan ''ab'', TextSpan ''cde'', HighlightSpan ''fgh''] \<and>
   concat (map partText
     (renderSegments ''abcdefgh'' (Some [\<lparr>start = 5, end' = 20\<rparr>, \<lparr>start = -3, end' = 2\<rparr>])))
     = ''abcdefgh''"
  using renderSegments_concat [of "''abcdefgh''" "[\<lparr>start = 5, end' = 20\<rparr>, \<lparr>start = -3, end' = 2\<rparr>]"]
  by (simp add: renderSegments_def renderMerged_def RangeMerger_def mergeLoop.simps
      clampIndex_def slice_def sliceFrom_def Let_def)

text \<open>
  C5 as stated fails for a range with \<open>start > end\<close>: the text before \<open>start\<close> is
  emitted, then \<open>lastIndex\<close> moves back to \<open>end\<close> and the text from there is emitted
  again.
\<close>

theorem renderSegments_degenerate_counterexample:
  "renderSegments ''abcdefgh'' (Some [\<lparr>start = 5, end' = 2\<rparr>])
     = [TextSpan ''abcde'', HighlightSpan [], TextSpan ''cdefgh''] \<and>
   concat (map partText (renderSegments ''abcdefgh'' (Some [\<lparr>start = 5, end' = 2\<rparr>])))
     \<noteq> ''abcdefgh''"
  by (simp add: renderSegments_def renderMerged_def RangeMerger_def
      clampIndex_def slice_def sliceFrom_def Let_def)

lemma walk_found:
  "distinct (map fst nodes) \<Longrightarrow> k < length nodes \<Longrightarrow>
   walk nodes (fst (nodes ! k)) offset cur
     = cur + int (length (concat (map snd (take k nodes)))) + offset"
proof (induction nodes arbitrary: k cur)
  case Nil
  then show ?case by simp
next
  case (Cons n nodes)
  obtain i s where n: "n = (i, s)" by (cases n)
  show ?case
  proof (cases k)
    case 0
    then show ?thesis by (simp add: n)
  next
    case (Suc j)
    have j: "j < length nodes" using Cons.prems(2) Suc by simp
    have d: "distinct (map fst nodes)" using Cons.prems(1) by simp
    have "fst (nodes ! j) \<in> fst ` set nodes" using j by simp
    then have ne: "i \<noteq> fst (nodes ! j)" using Cons.prems(1) n by auto
    show ?thesis
      using Cons.IH [OF d j, of "cur + int (length s)"] ne by (simp add: n Suc)
  qed
qed

lemma walk_not_found: "target \<notin> fst ` set nodes \<Longrightarrow> walk nodes target offset cur = -1"
proof (induction nodes arbitrary: cur)
  case Nil
  show ?case by simp
next
  case (Cons n nodes)
  obtain i s where n: "n = (i, s)" by (cases n)
  have "i \<noteq> target" "target \<notin> fst ` set nodes" using Cons.prems n by auto
  then show ?case using Cons.IH by (simp add: n)
qed

lemma concat_take_le:
  assumes "k < length nodes"
  shows "length (concat (map snd (take k nodes))) + length (snd (nodes ! k))
           \<le> length (concat (map snd nodes))"
proof -
  have "nodes = take k nodes @ (nodes ! k) # drop (Suc k) nodes"
    using assms by (simp add: id_take_nth_drop)
  then have "concat (map snd nodes)
      = concat (map snd (take k nodes)) @ snd (nodes ! k) @ concat (map snd (drop (Suc k) nodes))"
    by (metis concat.simps(2) concat_append list.simps(9) map_append)
  then show ?thesis by simp
qed

text \<open>
  C4. For a root whose text nodes are distinct objects, the \<open>k\<close>-th text node under
  the root and an offset with \<open>0 <= offset <= length\<close> of its text, getBlockOffset returns
  the sum of the text lengths of the text nodes before it in document order plus the
  offset, a value in \<open>[0, totalTextLength root]\<close>; for a target that is not a text node
  under the root it returns \<open>-1\<close>.
\<close>

theorem getBlockOffset_correct:
  "(distinct (map fst (walkerNodes root)) \<and> k < length (walkerNodes root) \<and>
    0 \<le> offset \<and> offset \<le> int (length (snd (walkerNodes root ! k))) \<longrightarrow>
      getBlockOffset root (fst (walkerNodes root ! k)) offset
        = int (length (concat (map snd (take k (walkerNodes root))))) + offset \<and>
      0 \<le> getBlockOffset root (fst (walkerNodes root ! k)) offset \<and>
      getBlockOffset root (fst (walkerNodes root ! k)) offset \<le> totalTextLength root) \<and>
   (target \<notin> fst ` set (walkerNodes root) \<longrightarrow> getBlockOffset root target offset = -1)"
proof (intro conjI impI)
  assume a: "distinct (map fst (walkerNodes root)) \<and> k < length (walkerNodes root) \<and>
    0 \<le> offset \<and> offset \<le> int (length (snd (walkerNodes root ! k)))"
  then have eq: "getBlockOffset root (fst (walkerNodes root ! k)) offset
        = int (length (concat (map snd (take k (walkerNodes root))))) + offset"
    using walk_found [of "walkerNodes root" k offset 0] by (simp add: getBlockOffset_def)
  then show "getBlockOffset root (fst (walkerNodes root ! k)) offset
        = int (length (concat (map snd (take k (walkerNodes root))))) + offset" .
  show "0 \<le> getBlockOffset root (fst (walkerNodes root ! k)) offset"
    using a by (simp only: eq) simp
  have "length (concat (map snd (take k (walkerNodes root)))) + length (snd (walkerNodes root ! k))
           \<le> length (concat (map snd (walkerNodes root)))"
    using a by (intro concat_take_le) simp
  then show "getBlockOffset root (fst (walkerNodes root ! k)) offset \<le> totalTextLength root"
    using a by (simp only: eq totalTextLength_def) linarith
next
  assume "target \<notin> fst ` set (walkerNodes root)"
  then show "getBlockOffset root target offset = -1"
    by (simp add: getBlockOffset_def walk_not_found)
qed

text \<open>
  The offset of a selection endpoint in the third text node of a block, and a target
  that is not under the root.
\<close>

theorem getBlockOffset_correct_witness:
  "walkerNodes (ElementNode 100 [TextNode 1 ''the '', ElementNode 101 [TextNode 2 ''quick''],
      TextNode 3 '' brown fox'']) = [(1, ''the ''), (2, ''quick''), (3, '' brown fox'')] \<and>
   getBlockOffset (ElementNode 100 [TextNode 1 ''the '', ElementNode 101 [TextNode 2 ''quick''],
      TextNode 3 '' brown fox'']) 3 6 = 15 \<and>
   totalTextLength (ElementNode 100 [TextNode 1 ''the '', ElementNode 101 [TextNode 2 ''quick''],
      TextNode 3 '' brown fox'']) = 19 \<and>
   getBlockOffset (ElementNode 100 [TextNode 1 ''the '', ElementNode 101 [TextNode 2 ''quick''],
      TextNode 3 '' brown fox'']) 7 6 = -1"
  using getBlockOffset_correct [of "ElementNode 100 [TextNode 1 ''the '',
      ElementNode 101 [TextNode 2 ''quick''], TextNode 3 '' brown fox'']" 2 6 7]
  by (simp add: walkerNodes_def totalTextLength_def)

lemma sort_key_map: "map f (sort_key (\<lambda>x. g (f x)) xs) = sort_key g (map f xs)"
proof (induction xs)
  case Nil
  show ?case by simp
next
  case (Cons x xs)
  have ins: "map f (insort_key (\<lambda>x. g (f x)) x ys) = insort_key g (f x) (map f ys)" for ys
    by (induction ys) simp_all
  show ?case using Cons.IH by (simp add: ins)
qed

lemma mergeLoopH_refines:
  assumes "distinct (c # rest)" "set merged \<inter> set (c # rest) = {}"
  shows "map (fst (mergeLoopH H c rest merged)) (snd (mergeLoopH H c rest merged))
           = mergeLoop (H c) (map H rest) (map H merged)"
  using assms
proof (induction rest arbitrary: H c merged)
  case Nil
  then show ?case by simp
next
  case (Cons s rest)
  show ?case
  proof (cases "end' (H c) \<ge> start (H s)")
    case True
    define H1 where "H1 = H(c := (H c)\<lparr>end' := max (end' (H c)) (end' (H s))\<rparr>)"
    have d: "distinct (c # rest)" using Cons.prems(1) by simp
    have m: "set merged \<inter> set (c # rest) = {}" using Cons.prems(2) by auto
    have r: "map H1 rest = map H rest" using Cons.prems(1) by (auto simp: H1_def)
    have mm: "map H1 merged = map H merged" using Cons.prems(2) by (auto simp: H1_def)
    have c: "H1 c = (H c)\<lparr>end' := max (end' (H c)) (end' (H s))\<rparr>" by (simp add: H1_def)
    have step: "mergeLoopH H c (s # rest) merged = mergeLoopH H1 c rest merged"
      using True by (simp add: H1_def)
    have vstep: "mergeLoop (H c) (map H (s # rest)) (map H merged)
        = mergeLoop (H1 c) (map H1 rest) (map H1 merged)"
      using True by (simp add: r mm c mergeLoop.simps)
    from Cons.IH [OF d m, of H1] show ?thesis by (simp only: step vstep)
  next
    case False
    have d: "distinct (s # rest)" using Cons.prems(1) by simp
    have m: "set (merged @ [c]) \<inter> set (s # rest) = {}" using Cons.prems by auto
    from Cons.IH [OF d m, of H] show ?thesis using False by (simp add: mergeLoop.simps)
  qed
qed

lemma HighlightedText_refines:
  assumes "distinct hs"
  shows "snd (HighlightedText H text (Some hs)) = renderSegments text (Some (map H hs))"
proof (cases "hs = []")
  case True
  then show ?thesis by (simp add: HighlightedText_def renderSegments_def)
next
  case False
  have sm: "map H (sort_key (\<lambda>r. start (H r)) hs) = sort_key start (map H hs)"
    by (rule sort_key_map)
  show ?thesis
  proof (cases "sort_key (\<lambda>r. start (H r)) hs")
    case Nil
    then have "hs = []" by (metis length_0_conv length_sort)
    then show ?thesis using False by simp
  next
    case (Cons c rest)
    have "distinct (sort_key (\<lambda>r. start (H r)) hs)" using assms by simp
    then have d: "distinct (c # rest)" by (simp only: Cons)
    have "map (fst (mergeLoopH H c rest [])) (snd (mergeLoopH H c rest []))
           = mergeLoop (H c) (map H rest) (map H [])"
      using d by (intro mergeLoopH_refines) simp_all
    moreover have "sort_key start (map H hs) = H c # map H rest" using sm Cons by simp
    ultimately have "map (fst (mergeLoopH H c rest [])) (snd (mergeLoopH H c rest []))
        = RangeMerger (map H hs)"
      by (simp add: RangeMerger_def)
    moreover obtain H' merged where hm: "mergeLoopH H c rest [] = (H', merged)"
      by (cases "mergeLoopH H c rest []") auto
    ultimately show ?thesis
      using False by (simp add: HighlightedText_def renderSegments_def Cons)
  qed
qed

text \<open>
  C3 fails on the code. Rendering the overlapping ranges \<open>{4, 9}\<close> and \<open>{7, 15}\<close>
  writes \<open>end = 15\<close> into the first range object, which is the object held by the
  state: \<open>sorted\<close> is a shallow copy of \<open>highlights\<close>.
\<close>

theorem HighlightedText_mutates_stored_range:
  "fst (HighlightedText ((\<lambda>_. \<lparr>start = 0, end' = 0\<rparr>)(0 := \<lparr>start = 4, end' = 9\<rparr>,
          1 := \<lparr>start = 7, end' = 15\<rparr>)) ''the quick brown fox'' (Some [0, 1])) 0
     = \<lparr>start = 4, end' = 15\<rparr> \<and>
   ((\<lambda>_. \<lparr>start = 0, end' = 0\<rparr>)(0 := \<lparr>start = 4, end' = 9\<rparr>, 1 := \<lparr>start = 7, end' = 15\<rparr>)) (0::nat)
     = \<lparr>start = 4, end' = 9\<rparr>"
  by (simp add: HighlightedText_def)

lemma digit_cases: "d < 10 \<Longrightarrow> d = 0 \<or> d = 1 \<or> d = 2 \<or> d = 3 \<or> d = 4 \<or> d = 5 \<or> d = 6 \<or> d = 7 \<or> d = 8 \<or> d = (9::nat)"
  by arith

lemma digit_char_props:
  assumes "d < 10"
  shows "is_digit (digit_char d)" "digit_val (digit_char d) = d"
    "digit_char d = CHR ''0'' \<longleftrightarrow> d = 0"
  using digit_cases [OF assms]
  by (auto simp: digit_char_def is_digit_def digit_val_def)

lemma digits_val_snoc: "digits_val (ds @ [c]) = 10 * digits_val ds + digit_val c"
  by (simp add: digits_val_def)

lemma show_nat_small: "n < 10 \<Longrightarrow> show_nat n = [digit_char n]"
  by (simp add: show_nat.simps)

lemma show_nat_large:
  "\<not> n < 10 \<Longrightarrow> show_nat n = show_nat (n div 10) @ [digit_char (n mod 10)]"
  by (subst show_nat.simps) simp

lemma show_nat_nonempty: "show_nat n \<noteq> []"
  by (cases "n < 10") (simp_all add: show_nat_small show_nat_large)

lemma show_nat_digits: "\<forall>c \<in> set (show_nat n). is_digit c"
proof (induction n rule: show_nat.induct)
  case (1 n)
  show ?case
  proof (cases "n < 10")
    case True
    then show ?thesis by (simp add: show_nat_small digit_char_props)
  next
    case False
    have "n mod 10 < 10" by simp
    then have "is_digit (digit_char (n mod 10))" by (rule digit_char_props)
    then show ?thesis using False "1.IH" by (simp add: show_nat_large)
  qed
qed

lemma show_nat_val: "digits_val (show_nat n) = n"
proof (induction n rule: show_nat.induct)
  case (1 n)
  show ?case
  proof (cases "n < 10")
    case True
    then show ?thesis by (simp add: show_nat_small digits_val_def digit_char_props)
  next
    case False
    have "n mod 10 < 10" by simp
    then have "digit_val (digit_char (n mod 10)) = n mod 10" by (rule digit_char_props)
    then show ?thesis using False "1.IH" by (simp add: show_nat_large digits_val_snoc)
  qed
qed

lemma show_nat_hd_zero: "hd (show_nat n) = CHR ''0'' \<Longrightarrow> n = 0"
proof (induction n rule: show_nat.induct)
  case (1 n)
  show ?case
  proof (cases "n < 10")
    case True
    then show ?thesis using "1.prems" by (simp add: show_nat_small digit_char_props)
  next
    case False
    have "hd (show_nat n) = hd (show_nat (n div 10))"
      using False show_nat_nonempty [of "n div 10"] by (simp add: show_nat_large)
    then have "n div 10 = 0" using "1.IH" [OF False] "1.prems" by simp
    then show ?thesis using False by simp
  qed
qed

lemma show_nat_no_leading_zero: "\<not> (length (show_nat n) > 1 \<and> hd (show_nat n) = CHR ''0'')"
proof
  assume a: "length (show_nat n) > 1 \<and> hd (show_nat n) = CHR ''0''"
  then have "n = 0" using show_nat_hd_zero by blast
  then show False using a by (simp add: show_nat_small)
qed

lemma takeWhile_stop: "rest = [] \<or> \<not> P (hd rest) \<Longrightarrow> takeWhile P rest = []"
  by (cases rest) auto

lemma show_nat_hd_digit: "is_digit (hd (show_nat n))"
  using show_nat_digits [of n] show_nat_nonempty [of n] by (cases "show_nat n") auto

lemma comma_separated_Cons:
  "comma_separated (x # xs) = x @ concat (map (\<lambda>y. CHR '','' # y) xs)"
  by (induction xs arbitrary: x) simp_all

lemma setBlock_append:
  "\<forall>k \<in> fst ` set acc. k < i \<Longrightarrow> setBlock i v acc = acc @ [(i, v)]"
  by (induction acc) auto

lemma fold_setBlock_sorted:
  "sorted_wrt (<) (map fst (acc @ es)) \<Longrightarrow>
   fold (\<lambda>(k, hs) obj. setBlock k hs obj) es acc = acc @ es"
proof (induction es arbitrary: acc)
  case Nil
  show ?case by simp
next
  case (Cons e es)
  obtain k hs where e: "e = (k, hs)" by (cases e)
  have "\<forall>j \<in> fst ` set acc. j < k"
    using Cons.prems by (auto simp: e sorted_wrt_append)
  then have s: "setBlock k hs acc = acc @ [(k, hs)]" by (rule setBlock_append)
  have "sorted_wrt (<) (map fst ((acc @ [(k, hs)]) @ es))" using Cons.prems by (simp add: e)
  from Cons.IH [OF this] show ?case by (simp add: e s)
qed

lemma JSON_stringify_nonempty: "JSON_stringify hl \<noteq> []"
  by (simp add: JSON_stringify_def)

lemma skip_ws_id: "s = [] \<or> \<not> is_ws (hd s) \<Longrightarrow> skip_ws s = s"
  by (cases s) (auto simp: skip_ws_def)

lemma parse_chars_plain:
  "list_all plain_char cs \<Longrightarrow> parse_chars (cs @ CHR 0x22 # rest) = Some (map of_char cs, rest)"
  by (induction cs) (simp_all add: plain_char_def)

lemma digit_plain: "is_digit c \<Longrightarrow> plain_char c"
  by (auto simp: is_digit_def plain_char_def)

lemma show_nat_plain: "list_all plain_char (show_nat n)"
  using show_nat_digits [of n] digit_plain by (auto simp: list_all_iff)

lemma parse_members_last:
  assumes "list_all plain_char cs"
    "parse_value (vt @ CHR ''}'' # rest) = Some (v, CHR ''}'' # rest)"
    "vt \<noteq> []" "\<not> is_ws (hd vt)"
  shows "parse_members (CHR 0x22 # cs @ CHR 0x22 # CHR '':'' # vt @ CHR ''}'' # rest)
           = Some ([(map of_char cs, v)], rest)"
proof -
  have k: "parse_chars (cs @ CHR 0x22 # CHR '':'' # vt @ CHR ''}'' # rest)
      = Some (map of_char cs, CHR '':'' # vt @ CHR ''}'' # rest)"
    using assms(1) by (rule parse_chars_plain)
  have w1: "skip_ws (CHR '':'' # vt @ CHR ''}'' # rest) = CHR '':'' # vt @ CHR ''}'' # rest"
    by (rule skip_ws_id) (simp add: is_ws_def)
  have w2: "skip_ws (vt @ CHR ''}'' # rest) = vt @ CHR ''}'' # rest"
    using assms(3,4) by (intro skip_ws_id) simp
  have w3: "skip_ws (CHR ''}'' # rest) = CHR ''}'' # rest"
    by (rule skip_ws_id) (simp add: is_ws_def)
  show ?thesis
    by (subst parse_members.simps) (simp add: starts_with_def k w1 w2 w3 assms(2))
qed

lemma parse_members_more:
  assumes "list_all plain_char cs"
    "parse_value (vt @ CHR '','' # tail) = Some (v, CHR '','' # tail)"
    "vt \<noteq> []" "\<not> is_ws (hd vt)"
    "tail = [] \<or> \<not> is_ws (hd tail)"
    "parse_members tail = Some (ms, rest)"
  shows "parse_members (CHR 0x22 # cs @ CHR 0x22 # CHR '':'' # vt @ CHR '','' # tail)
           = Some ((map of_char cs, v) # ms, rest)"
proof -
  have k: "parse_chars (cs @ CHR 0x22 # CHR '':'' # vt @ CHR '','' # tail)
      = Some (map of_char cs, CHR '':'' # vt @ CHR '','' # tail)"
    using assms(1) by (rule parse_chars_plain)
  have w1: "skip_ws (CHR '':'' # vt @ CHR '','' # tail) = CHR '':'' # vt @ CHR '','' # tail"
    by (rule skip_ws_id) (simp add: is_ws_def)
  have w2: "skip_ws (vt @ CHR '','' # tail) = vt @ CHR '','' # tail"
    using assms(3,4) by (intro skip_ws_id) simp
  have w3: "skip_ws (CHR '','' # tail) = CHR '','' # tail"
    by (rule skip_ws_id) (simp add: is_ws_def)
  have w4: "skip_ws tail = tail" using assms(5) by (rule skip_ws_id)
  show ?thesis
    by (subst parse_members.simps) (simp add: starts_with_def k w1 w2 w3 w4 assms(2,6))
qed

lemma parse_elements_last:
  assumes "parse_value (vt @ CHR '']'' # rest) = Some (v, CHR '']'' # rest)" "vt \<noteq> []"
  shows "parse_elements (vt @ CHR '']'' # rest) = Some ([v], rest)"
proof -
  have w: "skip_ws (CHR '']'' # rest) = CHR '']'' # rest"
    by (rule skip_ws_id) (simp add: is_ws_def)
  show ?thesis
    using assms(2) by (subst parse_elements.simps) (simp add: starts_with_def w assms(1))
qed

lemma parse_elements_more:
  assumes "parse_value (vt @ CHR '','' # tail) = Some (v, CHR '','' # tail)" "vt \<noteq> []"
    "tail = [] \<or> \<not> is_ws (hd tail)"
    "parse_elements tail = Some (vs, rest)"
  shows "parse_elements (vt @ CHR '','' # tail) = Some (v # vs, rest)"
proof -
  have w: "skip_ws (CHR '','' # tail) = CHR '','' # tail"
    by (rule skip_ws_id) (simp add: is_ws_def)
  have w4: "skip_ws tail = tail" using assms(3) by (rule skip_ws_id)
  show ?thesis
    using assms(2) by (subst parse_elements.simps) (simp add: starts_with_def w w4 assms(1,4))
qed

lemma digits_val_Nil: "digits_val [] = 0"
  by (simp add: digits_val_def)

lemma takeWhile_digits_show_nat:
  assumes "rest \<noteq> []" "\<not> is_digit (hd rest)"
  shows "takeWhile is_digit (show_nat n @ rest) = show_nat n"
    "dropWhile is_digit (show_nat n @ rest) = rest"
proof -
  have t: "takeWhile is_digit rest = []" using assms by (cases rest) auto
  have d: "dropWhile is_digit rest = rest" using assms by (cases rest) auto
  show "takeWhile is_digit (show_nat n @ rest) = show_nat n"
    using show_nat_digits [of n] t by (simp add: takeWhile_append2)
  show "dropWhile is_digit (show_nat n @ rest) = rest"
    using show_nat_digits [of n] d by (simp add: dropWhile_append2)
qed

lemma parse_number_unsigned:
  assumes "rest \<noteq> []" "hd rest = CHR '','' \<or> hd rest = CHR ''}''"
  shows "parse_number (show_nat n @ rest) = Some ((int n, 0), rest)"
proof -
  have nd: "\<not> is_digit (hd rest)" using assms(2) by (auto simp: is_digit_def)
  have hd: "hd (show_nat n @ rest) = hd (show_nat n)" using show_nat_nonempty by simp
  have neg: "\<not> starts_with (CHR ''-'') (show_nat n @ rest)"
    using show_nat_hd_digit [of n] by (auto simp: starts_with_def hd is_digit_def)
  have r: "\<not> starts_with (CHR ''.'') rest" "\<not> starts_with (CHR ''e'') rest"
    "\<not> starts_with (CHR ''E'') rest"
    using assms(2) by (auto simp: starts_with_def)
  show ?thesis
    using show_nat_nonempty [of n] show_nat_no_leading_zero [of n]
    by (simp add: parse_number_def Let_def neg r
        takeWhile_digits_show_nat [OF assms(1) nd] show_nat_val digits_val_Nil)
qed

lemma parse_number_negative:
  assumes "rest \<noteq> []" "hd rest = CHR '','' \<or> hd rest = CHR ''}''"
  shows "parse_number (CHR ''-'' # show_nat n @ rest) = Some ((- int n, 0), rest)"
proof -
  have nd: "\<not> is_digit (hd rest)" using assms(2) by (auto simp: is_digit_def)
  have r: "\<not> starts_with (CHR ''.'') rest" "\<not> starts_with (CHR ''e'') rest"
    "\<not> starts_with (CHR ''E'') rest"
    using assms(2) by (auto simp: starts_with_def)
  have neg: "starts_with (CHR ''-'') (CHR ''-'' # show_nat n @ rest)"
    by (simp add: starts_with_def)
  show ?thesis
    using show_nat_nonempty [of n] show_nat_no_leading_zero [of n]
    by (simp add: parse_number_def Let_def neg r
        takeWhile_digits_show_nat [OF assms(1) nd] show_nat_val digits_val_Nil)
qed

lemma parse_number_show_int:
  assumes "rest \<noteq> []" "hd rest = CHR '','' \<or> hd rest = CHR ''}''"
  shows "parse_number (show_int i @ rest) = Some ((i, 0), rest)"
proof (cases "i < 0")
  case True
  then show ?thesis
    using parse_number_negative [OF assms, of "nat (- i)"] by (simp add: show_int_def)
next
  case False
  then show ?thesis
    using parse_number_unsigned [OF assms, of "nat i"] by (simp add: show_int_def)
qed

lemma show_int_hd:
  "show_int i \<noteq> [] \<and> (is_digit (hd (show_int i)) \<or> hd (show_int i) = CHR ''-'')"
  using show_nat_nonempty show_nat_hd_digit by (simp add: show_int_def)

lemma parse_value_number:
  assumes "rest \<noteq> []" "hd rest = CHR '','' \<or> hd rest = CHR ''}''"
  shows "parse_value (show_int i @ rest) = Some (JNumber i 0, rest)"
proof -
  obtain c r where cr: "show_int i = c # r" using show_int_hd [of i] by (cases "show_int i") auto
  have c: "is_digit c \<or> c = CHR ''-''" using show_int_hd [of i] by (simp add: cr)
  have n: "parse_number (c # r @ rest) = Some ((i, 0), rest)"
    using parse_number_show_int [OF assms, of i] by (simp add: cr)
  have "parse_value (c # r @ rest) = Some (JNumber i 0, rest)"
    using c by (subst parse_value.simps) (auto simp: n is_digit_def)
  then show ?thesis by (simp add: cr)
qed

lemma show_int_not_ws: "\<not> is_ws (hd (show_int i))"
  using show_int_hd [of i] by (auto simp: is_ws_def is_digit_def)

lemma parse_value_highlight:
  "parse_value (stringify_highlight h @ rest) = Some (json_of_highlight h, rest)"
proof -
  define endText where
    "endText = CHR 0x22 # ''end'' @ CHR 0x22 # CHR '':'' # show_int (end' h) @ CHR ''}'' # rest"
  define startText where
    "startText = CHR 0x22 # ''start'' @ CHR 0x22 # CHR '':'' # show_int (start h) @ CHR '','' # endText"
  have e: "parse_members endText = Some ([(map of_char ''end'', JNumber (end' h) 0)], rest)"
    unfolding endText_def
  proof (rule parse_members_last)
    show "list_all plain_char ''end''" by (simp add: plain_char_def)
    show "parse_value (show_int (end' h) @ CHR ''}'' # rest) = Some (JNumber (end' h) 0, CHR ''}'' # rest)"
      by (rule parse_value_number) simp_all
    show "show_int (end' h) \<noteq> []" using show_int_hd by simp
    show "\<not> is_ws (hd (show_int (end' h)))" by (rule show_int_not_ws)
  qed
  have m: "parse_members startText
      = Some ((map of_char ''start'', JNumber (start h) 0) # [(map of_char ''end'', JNumber (end' h) 0)], rest)"
    unfolding startText_def
  proof (rule parse_members_more)
    show "list_all plain_char ''start''" by (simp add: plain_char_def)
    show "parse_value (show_int (start h) @ CHR '','' # endText)
        = Some (JNumber (start h) 0, CHR '','' # endText)"
      by (rule parse_value_number) simp_all
    show "show_int (start h) \<noteq> []" using show_int_hd by simp
    show "\<not> is_ws (hd (show_int (start h)))" by (rule show_int_not_ws)
    show "endText = [] \<or> \<not> is_ws (hd endText)" by (simp add: endText_def is_ws_def)
    show "parse_members endText = Some ([(map of_char ''end'', JNumber (end' h) 0)], rest)"
      by (rule e)
  qed
  have s: "stringify_highlight h @ rest = CHR ''{'' # startText"
    by (simp add: stringify_highlight_def startText_def endText_def)
  have w: "skip_ws startText = startText"
    by (rule skip_ws_id) (simp add: startText_def is_ws_def)
  have n: "\<not> starts_with (CHR ''}'') startText" by (simp add: startText_def starts_with_def)
  have "parse_value (CHR ''{'' # startText) = Some (json_of_highlight h, rest)"
    by (subst parse_value.simps) (simp add: w m n json_of_highlight_def)
  then show ?thesis by (simp only: s)
qed

lemma stringify_highlight_hd:
  "stringify_highlight h \<noteq> [] \<and> hd (stringify_highlight h) = CHR ''{''"
  by (simp add: stringify_highlight_def)

lemma parse_elements_highlights:
  "parse_elements (comma_separated (map stringify_highlight (h # hs)) @ CHR '']'' # rest)
     = Some (map json_of_highlight (h # hs), rest)"
proof (induction hs arbitrary: h)
  case Nil
  have "parse_elements (stringify_highlight h @ CHR '']'' # rest) = Some ([json_of_highlight h], rest)"
    using stringify_highlight_hd [of h] by (intro parse_elements_last parse_value_highlight) simp
  then show ?case by simp
next
  case (Cons g hs)
  define tail where "tail = comma_separated (map stringify_highlight (g # hs)) @ CHR '']'' # rest"
  have t: "parse_elements tail = Some (map json_of_highlight (g # hs), rest)"
    unfolding tail_def by (rule Cons.IH)
  have "hd tail = CHR ''{''"
    using stringify_highlight_hd [of g] by (cases hs) (simp_all add: tail_def)
  then have nw: "tail = [] \<or> \<not> is_ws (hd tail)" by (simp add: is_ws_def)
  have "parse_elements (stringify_highlight h @ CHR '','' # tail)
      = Some (json_of_highlight h # map json_of_highlight (g # hs), rest)"
    using stringify_highlight_hd [of h] nw t
    by (intro parse_elements_more parse_value_highlight) simp_all
  then show ?case by (simp add: tail_def)
qed

lemma stringify_array_hd: "stringify_array hs \<noteq> [] \<and> hd (stringify_array hs) = CHR ''[''"
  by (simp add: stringify_array_def)

lemma parse_value_array:
  "parse_value (stringify_array hs @ rest) = Some (JArray (map json_of_highlight hs), rest)"
proof (cases hs)
  case Nil
  have w: "skip_ws (CHR '']'' # rest) = CHR '']'' # rest"
    by (rule skip_ws_id) (simp add: is_ws_def)
  have "parse_value (CHR ''['' # CHR '']'' # rest) = Some (JArray [], rest)"
    by (subst parse_value.simps) (simp add: w starts_with_def)
  then show ?thesis by (simp add: Nil stringify_array_def)
next
  case (Cons h gs)
  define body where "body = comma_separated (map stringify_highlight (h # gs)) @ CHR '']'' # rest"
  have b: "parse_elements body = Some (map json_of_highlight (h # gs), rest)"
    unfolding body_def by (rule parse_elements_highlights)
  have hd: "body \<noteq> [] \<and> hd body = CHR ''{''"
    using stringify_highlight_hd [of h] by (cases gs) (simp_all add: body_def)
  have w: "skip_ws body = body" using hd by (intro skip_ws_id) (simp add: is_ws_def)
  have n: "\<not> starts_with (CHR '']'') body" using hd by (simp add: starts_with_def)
  have "parse_value (CHR ''['' # body) = Some (JArray (map json_of_highlight (h # gs)), rest)"
    by (subst parse_value.simps) (simp add: w b n)
  then show ?thesis by (simp add: Cons stringify_array_def body_def)
qed

lemma stringify_entry_eq:
  "stringify_entry e @ rest
     = CHR 0x22 # show_nat (fst e) @ CHR 0x22 # CHR '':'' # stringify_array (snd e) @ rest"
  by (simp add: stringify_entry_def)

lemma stringify_entry_hd: "stringify_entry e \<noteq> [] \<and> hd (stringify_entry e) = CHR 0x22"
  by (simp add: stringify_entry_def)

lemma array_not_ws: "\<not> is_ws (hd (stringify_array hs))"
  using stringify_array_hd [of hs] by (simp add: is_ws_def)

lemma parse_members_entries:
  "parse_members (comma_separated (map stringify_entry (e # es)) @ CHR ''}'' # rest)
     = Some (map json_of_entry (e # es), rest)"
proof (induction es arbitrary: e)
  case Nil
  have "parse_members (CHR 0x22 # show_nat (fst e) @ CHR 0x22 # CHR '':'' #
          stringify_array (snd e) @ CHR ''}'' # rest)
      = Some ([(map of_char (show_nat (fst e)), JArray (map json_of_highlight (snd e)))], rest)"
    using stringify_array_hd [of "snd e"]
    by (intro parse_members_last show_nat_plain parse_value_array array_not_ws) simp
  then show ?case by (simp add: stringify_entry_def json_of_entry_def)
next
  case (Cons g es)
  define tail where "tail = comma_separated (map stringify_entry (g # es)) @ CHR ''}'' # rest"
  have t: "parse_members tail = Some (map json_of_entry (g # es), rest)"
    unfolding tail_def by (rule Cons.IH)
  have "hd tail = CHR 0x22"
    using stringify_entry_hd [of g] by (cases es) (simp_all add: tail_def)
  then have nw: "tail = [] \<or> \<not> is_ws (hd tail)" by (simp add: is_ws_def)
  have "parse_members (CHR 0x22 # show_nat (fst e) @ CHR 0x22 # CHR '':'' #
          stringify_array (snd e) @ CHR '','' # tail)
      = Some ((map of_char (show_nat (fst e)), JArray (map json_of_highlight (snd e)))
               # map json_of_entry (g # es), rest)"
    using stringify_array_hd [of "snd e"] nw t
    by (intro parse_members_more show_nat_plain parse_value_array array_not_ws) simp_all
  moreover have "comma_separated (map stringify_entry (e # g # es)) @ CHR ''}'' # rest
      = CHR 0x22 # show_nat (fst e) @ CHR 0x22 # CHR '':'' # stringify_array (snd e) @ CHR '','' # tail"
    by (simp add: tail_def stringify_entry_def [of e])
  moreover have "map json_of_entry (e # g # es)
      = (map of_char (show_nat (fst e)), JArray (map json_of_highlight (snd e)))
          # map json_of_entry (g # es)"
    by (simp add: json_of_entry_def [of e])
  ultimately show ?case by (simp only:)
qed

lemma parse_value_state:
  "parse_value (JSON_stringify hl) = Some (json_of_state hl, [])"
proof (cases hl)
  case Nil
  have w: "skip_ws ''}'' = ''}''" by (rule skip_ws_id) (simp add: is_ws_def)
  have "parse_value ''{}'' = Some (JObject [], [])"
    by (subst parse_value.simps) (simp add: w starts_with_def)
  then show ?thesis by (simp add: Nil JSON_stringify_def json_of_state_def)
next
  case (Cons e es)
  define body where "body = comma_separated (map stringify_entry (e # es)) @ ''}''"
  have b: "parse_members body = Some (map json_of_entry (e # es), [])"
    unfolding body_def by (rule parse_members_entries)
  have hd: "body \<noteq> [] \<and> hd body = CHR 0x22"
    using stringify_entry_hd [of e] by (cases es) (simp_all add: body_def)
  have w: "skip_ws body = body" using hd by (intro skip_ws_id) (simp add: is_ws_def)
  have n: "\<not> starts_with (CHR ''}'') body" using hd by (simp add: starts_with_def)
  have "parse_value (CHR ''{'' # body) = Some (JObject (map json_of_entry (e # es)), [])"
    by (subst parse_value.simps) (simp add: w b n)
  then show ?thesis by (simp add: Cons JSON_stringify_def json_of_state_def body_def)
qed

lemma JSON_parse_stringify: "JSON_parse (JSON_stringify hl) = Some (json_of_state hl)"
proof -
  have "skip_ws (JSON_stringify hl) = JSON_stringify hl"
    by (rule skip_ws_id) (simp add: JSON_stringify_def is_ws_def)
  then show ?thesis by (simp add: JSON_parse_def parse_value_state skip_ws_def)
qed

lemma decode_highlight_json: "decode_highlight (json_of_highlight h) = Some h"
  by (simp add: decode_highlight_def json_of_highlight_def decode_int_def)

lemma those_decode_highlights: "those (map decode_highlight (map json_of_highlight hs)) = Some hs"
  by (induction hs) (simp_all add: decode_highlight_json)

lemma digit_unit:
  assumes "is_digit c"
  shows "48 \<le> (of_char c :: nat) \<and> (of_char c :: nat) \<le> 57 \<and>
    (of_char c :: nat) - 48 = digit_val c \<and> ((of_char c :: nat) = 48 \<longleftrightarrow> c = CHR ''0'')"
proof -
  have "c \<in> set ''0123456789''" using assms by (simp add: is_digit_def)
  then consider "c = CHR ''0''" | "c = CHR ''1''" | "c = CHR ''2''" | "c = CHR ''3''"
    | "c = CHR ''4''" | "c = CHR ''5''" | "c = CHR ''6''" | "c = CHR ''7''"
    | "c = CHR ''8''" | "c = CHR ''9''"
    by auto
  then show ?thesis by cases (simp_all add: digit_val_def)
qed

lemma foldl_units:
  "\<forall>c \<in> set ds. is_digit c \<Longrightarrow>
   foldl (\<lambda>a u. 10 * a + (u - 48)) a0 (map of_char ds) = foldl (\<lambda>a c. 10 * a + digit_val c) a0 ds"
  by (induction ds arbitrary: a0) (simp_all add: digit_unit)

lemma decode_index_show_nat: "decode_index (map of_char (show_nat k)) = Some k"
proof -
  have d: "\<forall>c \<in> set (show_nat k). is_digit c" by (rule show_nat_digits)
  have a: "list_all (\<lambda>u. 48 \<le> u \<and> u \<le> (57::nat)) (map of_char (show_nat k))"
    using d by (auto simp: list_all_iff digit_unit)
  have ne: "show_nat k \<noteq> []" by (rule show_nat_nonempty)
  have "hd (map of_char (show_nat k)) = (of_char (hd (show_nat k)) :: nat)"
    using ne by (simp add: hd_map)
  then have z: "\<not> (length (map of_char (show_nat k) :: nat list) > 1 \<and>
                   hd (map of_char (show_nat k)) = (48::nat))"
    using show_nat_no_leading_zero [of k] show_nat_hd_digit [of k] by (simp add: digit_unit)
  have v: "foldl (\<lambda>a u. 10 * a + (u - 48)) 0 (map of_char (show_nat k)) = k"
    using foldl_units [OF d, of 0] show_nat_val [of k] by (simp add: digits_val_def)
  show ?thesis unfolding decode_index_def using a ne z v by simp
qed

lemma decode_entry_json: "decode_entry (json_of_entry e) = Some e"
  by (simp add: decode_entry_def json_of_entry_def decode_index_show_nat decode_array_def
      those_decode_highlights del: map_map)

lemma those_decode_entries: "those (map decode_entry (map json_of_entry hl)) = Some hl"
  by (induction hl) (simp_all add: decode_entry_json)

lemma decode_state_json:
  assumes "sorted_wrt (<) (map fst hl)"
  shows "decode_state (json_of_state hl) = Some hl"
proof -
  have "fold (\<lambda>(k, hs) obj. setBlock k hs obj) hl [] = hl"
    using fold_setBlock_sorted [of "[]" hl] assms by simp
  then show ?thesis
    by (simp add: decode_state_def json_of_state_def those_decode_entries del: map_map)
qed

lemma getBlock_setBlock:
  "getBlock (setBlock i v hl) j = (if j = i then Some v else getBlock hl j)"
  by (induction hl) (auto simp: getBlock_def)

lemma applyHighlight_block_None:
  "querySelector i = None \<Longrightarrow>
   applyHighlight_block sect querySelector range' startIndex endIndex i hl = Inr hl"
  by (simp add: applyHighlight_block_def)

lemma applyHighlight_block_TypeError:
  "querySelector i = Some blockEl \<Longrightarrow> length (content sect) \<le> i \<Longrightarrow>
   applyHighlight_block sect querySelector range' startIndex endIndex i hl = Inl TypeError"
  by (simp add: applyHighlight_block_def)

lemma applyHighlight_block_Some:
  assumes "querySelector i = Some blockEl" "i < length (content sect)"
    "selectionOffsets sect range' startIndex endIndex i blockEl = (s, e)"
  shows "applyHighlight_block sect querySelector range' startIndex endIndex i hl =
     Inr (if s < e
          then setBlock i ((case getBlock hl i of None \<Rightarrow> [] | Some l \<Rightarrow> l)
                 @ [\<lparr>start = s, end' = e\<rparr>]) hl
          else hl)"
  using assms by (simp add: applyHighlight_block_def)

lemma applyHighlight_block_frame:
  assumes "applyHighlight_block sect querySelector range' startIndex endIndex i hl = Inr hl'"
    "j \<noteq> i"
  shows "getBlock hl' j = getBlock hl j"
proof (cases "querySelector i")
  case None
  then show ?thesis using assms(1) by (simp add: applyHighlight_block_None)
next
  case (Some blockEl)
  show ?thesis
  proof (cases "i < length (content sect)")
    case True
    obtain s e where o: "selectionOffsets sect range' startIndex endIndex i blockEl = (s, e)"
      by (cases "selectionOffsets sect range' startIndex endIndex i blockEl") auto
    show ?thesis
      using assms unfolding applyHighlight_block_Some [where querySelector = querySelector, OF Some True o]
      by (auto simp: getBlock_setBlock split: if_splits)
  next
    case False
    then show ?thesis using assms(1) Some by (simp add: applyHighlight_block_TypeError)
  qed
qed

lemma applyHighlight_loop_frame:
  "applyHighlight_loop sect querySelector range' startIndex endIndex is hl = Inr hl' \<Longrightarrow>
   j \<notin> set is \<Longrightarrow> getBlock hl' j = getBlock hl j"
proof (induction "is" arbitrary: hl)
  case Nil
  then show ?case by simp
next
  case (Cons i "is")
  obtain hl1 where b: "applyHighlight_block sect querySelector range' startIndex endIndex i hl = Inr hl1"
    and l: "applyHighlight_loop sect querySelector range' startIndex endIndex is hl1 = Inr hl'"
    using Cons.prems(1) by (auto split: sum.splits)
  have "getBlock hl1 j = getBlock hl j"
    using b Cons.prems(2) by (intro applyHighlight_block_frame) auto
  moreover have "getBlock hl' j = getBlock hl1 j" using l Cons.prems(2) by (intro Cons.IH) auto
  ultimately show ?case by simp
qed

lemma applyHighlight_loop_at:
  "applyHighlight_loop sect querySelector range' startIndex endIndex is hl = Inr hl' \<Longrightarrow>
   distinct is \<Longrightarrow> j \<in> set is \<Longrightarrow>
   \<exists>hl1 hl2. getBlock hl1 j = getBlock hl j \<and>
     applyHighlight_block sect querySelector range' startIndex endIndex j hl1 = Inr hl2 \<and>
     getBlock hl' j = getBlock hl2 j"
proof (induction "is" arbitrary: hl)
  case Nil
  then show ?case by simp
next
  case (Cons i "is")
  obtain hl1 where b: "applyHighlight_block sect querySelector range' startIndex endIndex i hl = Inr hl1"
    and l: "applyHighlight_loop sect querySelector range' startIndex endIndex is hl1 = Inr hl'"
    using Cons.prems(1) by (auto split: sum.splits)
  show ?case
  proof (cases "j = i")
    case True
    then have "j \<notin> set is" using Cons.prems(2) by simp
    then have "getBlock hl' j = getBlock hl1 j" using l by (intro applyHighlight_loop_frame)
    then show ?thesis using b True by blast
  next
    case False
    then have j: "j \<in> set is" using Cons.prems(3) by simp
    have d: "distinct is" using Cons.prems(2) by simp
    obtain hl2 hl3 where "getBlock hl2 j = getBlock hl1 j"
      "applyHighlight_block sect querySelector range' startIndex endIndex j hl2 = Inr hl3"
      "getBlock hl' j = getBlock hl3 j"
      using Cons.IH [OF l d j] by blast
    moreover have "getBlock hl1 j = getBlock hl j"
      using b False by (intro applyHighlight_block_frame)
    ultimately show ?thesis by (metis (no_types))
  qed
qed

lemma applyHighlight_block_returns:
  assumes "querySelector i \<noteq> None \<longrightarrow> i < length (content sect)"
  shows "\<exists>hl'. applyHighlight_block sect querySelector range' startIndex endIndex i hl = Inr hl'"
proof (cases "querySelector i")
  case None
  then show ?thesis by (simp add: applyHighlight_block_None)
next
  case (Some blockEl)
  then have i: "i < length (content sect)" using assms by simp
  obtain s e where o: "selectionOffsets sect range' startIndex endIndex i blockEl = (s, e)"
    by (cases "selectionOffsets sect range' startIndex endIndex i blockEl") auto
  from applyHighlight_block_Some [where querySelector = querySelector, OF Some i o]
  show ?thesis by blast
qed

lemma applyHighlight_loop_returns:
  "\<forall>i \<in> set is. querySelector i \<noteq> None \<longrightarrow> i < length (content sect) \<Longrightarrow>
   \<exists>hl'. applyHighlight_loop sect querySelector range' startIndex endIndex is hl = Inr hl'"
proof (induction "is" arbitrary: hl)
  case Nil
  show ?case by simp
next
  case (Cons i "is")
  have "querySelector i \<noteq> None \<longrightarrow> i < length (content sect)" using Cons.prems by simp
  then obtain hl1 where
    b: "applyHighlight_block sect querySelector range' startIndex endIndex i hl = Inr hl1"
    using applyHighlight_block_returns [where querySelector = querySelector and i = i
        and sect = sect and range' = range' and startIndex = startIndex
        and endIndex = endIndex and hl = hl] by blast
  have "\<forall>i \<in> set is. querySelector i \<noteq> None \<longrightarrow> i < length (content sect)"
    using Cons.prems by simp
  then obtain hl' where
    "applyHighlight_loop sect querySelector range' startIndex endIndex is hl1 = Inr hl'"
    using Cons.IH [of hl1] by blast
  then show ?case using b by simp
qed

lemma highlights_saveHighlights: "highlights (saveHighlights sect nh st) = nh"
  by (simp add: saveHighlights_def)

lemma selectionOffsets_multi:
  assumes "startIndex \<noteq> endIndex"
  shows "selectionOffsets sect range' startIndex endIndex i blockEl =
     (let len = int (length (blockText (content sect ! i)));
          resolvedStart = getBlockOffset blockEl (startContainer range') (int (startOffset range'));
          resolvedEnd = getBlockOffset blockEl (endContainer range') (int (endOffset range'))
      in (if i = startIndex \<and> resolvedStart \<noteq> -1 then resolvedStart else 0,
          if i = endIndex \<and> resolvedEnd \<noteq> -1 then resolvedEnd else len))"
  using assms by (simp add: selectionOffsets_def Let_def)

text \<open>
  C10. For every prior state and every pair of endpoint block indices, every block index
  outside the closed interval between them has the same range list after applyHighlight
  as before it (also when the handler ends with a TypeError, which leaves the state as it
  was).
\<close>

theorem applyHighlight_frame:
  "i < min startIndex endIndex \<or> max startIndex endIndex < i \<Longrightarrow>
   getBlock (highlights (case applyHighlight sect querySelector range' startIndex endIndex st of
                           Inr st' \<Rightarrow> st' | Inl e \<Rightarrow> st)) i
     = getBlock (highlights st) i"
proof -
  assume out: "i < min startIndex endIndex \<or> max startIndex endIndex < i"
  show ?thesis
  proof (cases "applyHighlight_loop sect querySelector range' startIndex endIndex
                  [min startIndex endIndex ..< Suc (max startIndex endIndex)] (highlights st)")
    case (Inl e)
    then show ?thesis by (simp add: applyHighlight_def)
  next
    case (Inr nh)
    have "i \<notin> set [min startIndex endIndex ..< Suc (max startIndex endIndex)]"
      using out by auto
    with Inr have "getBlock nh i = getBlock (highlights st) i"
      by (rule applyHighlight_loop_frame)
    then show ?thesis using Inr by (simp add: applyHighlight_def highlights_saveHighlights)
  qed
qed

text \<open>
  C8 (as amended). For a selection whose endpoints lie in different blocks, applyHighlight
  returns, and each block in the closed interval between the two endpoint indices that
  has a rendered block element gets one new range appended to its list: from the resolved
  start offset (0 when it is not the start block, or the offset is unresolved) to the
  resolved end offset (the length of the block text when it is not the end block, or the
  offset is unresolved), if that start is strictly less than that end, and nothing
  otherwise. A block without a rendered block element gets nothing.
\<close>

theorem applyHighlight_multi_block:
  assumes "startIndex \<noteq> endIndex"
    "min startIndex endIndex \<le> i" "i \<le> max startIndex endIndex"
    "\<forall>j \<in> {min startIndex endIndex .. max startIndex endIndex}.
       querySelector j \<noteq> None \<longrightarrow> j < length (content sect)"
  shows "\<exists>st'. applyHighlight sect querySelector range' startIndex endIndex st = Inr st' \<and>
     getBlock (highlights st') i =
       (case querySelector i of
          None \<Rightarrow> getBlock (highlights st) i
        | Some blockEl \<Rightarrow>
            let len = int (length (blockText (content sect ! i)));
                resolvedStart = getBlockOffset blockEl (startContainer range')
                                  (int (startOffset range'));
                resolvedEnd = getBlockOffset blockEl (endContainer range')
                                (int (endOffset range'));
                s = (if i = startIndex \<and> resolvedStart \<noteq> -1 then resolvedStart else 0);
                e = (if i = endIndex \<and> resolvedEnd \<noteq> -1 then resolvedEnd else len)
            in if s < e
               then Some ((case getBlock (highlights st) i of None \<Rightarrow> [] | Some l \<Rightarrow> l)
                            @ [\<lparr>start = s, end' = e\<rparr>])
               else getBlock (highlights st) i)"
proof -
  let ?is = "[min startIndex endIndex ..< Suc (max startIndex endIndex)]"
  have "\<forall>j \<in> set ?is. querySelector j \<noteq> None \<longrightarrow> j < length (content sect)"
    using assms(4) by auto
  then obtain nh where
    loop: "applyHighlight_loop sect querySelector range' startIndex endIndex ?is (highlights st) = Inr nh"
    using applyHighlight_loop_returns by blast
  have ret: "applyHighlight sect querySelector range' startIndex endIndex st
      = Inr (saveHighlights sect nh st)"
    using loop by (simp add: applyHighlight_def)
  have "distinct ?is" "i \<in> set ?is" using assms(2,3) by auto
  with loop obtain hl1 hl2 where
    h1: "getBlock hl1 i = getBlock (highlights st) i" and
    b: "applyHighlight_block sect querySelector range' startIndex endIndex i hl1 = Inr hl2" and
    h2: "getBlock nh i = getBlock hl2 i"
    using applyHighlight_loop_at by blast
  have "getBlock hl2 i =
       (case querySelector i of
          None \<Rightarrow> getBlock (highlights st) i
        | Some blockEl \<Rightarrow>
            let len = int (length (blockText (content sect ! i)));
                resolvedStart = getBlockOffset blockEl (startContainer range')
                                  (int (startOffset range'));
                resolvedEnd = getBlockOffset blockEl (endContainer range')
                                (int (endOffset range'));
                s = (if i = startIndex \<and> resolvedStart \<noteq> -1 then resolvedStart else 0);
                e = (if i = endIndex \<and> resolvedEnd \<noteq> -1 then resolvedEnd else len)
            in if s < e
               then Some ((case getBlock (highlights st) i of None \<Rightarrow> [] | Some l \<Rightarrow> l)
                            @ [\<lparr>start = s, end' = e\<rparr>])
               else getBlock (highlights st) i)"
  proof (cases "querySelector i")
    case None
    then show ?thesis using b h1 by (simp add: applyHighlight_block_None)
  next
    case (Some blockEl)
    have "i \<in> {min startIndex endIndex .. max startIndex endIndex}" using assms(2,3) by simp
    then have len: "i < length (content sect)" using assms(4) Some by blast
    define rs where
      "rs = getBlockOffset blockEl (startContainer range') (int (startOffset range'))"
    define re where
      "re = getBlockOffset blockEl (endContainer range') (int (endOffset range'))"
    define s where "s = (if i = startIndex \<and> rs \<noteq> -1 then rs else 0)"
    define e where "e = (if i = endIndex \<and> re \<noteq> -1 then re
                         else int (length (blockText (content sect ! i))))"
    have o: "selectionOffsets sect range' startIndex endIndex i blockEl = (s, e)"
      by (simp add: selectionOffsets_multi [OF assms(1)] Let_def s_def e_def rs_def re_def)
    have "hl2 = (if s < e
          then setBlock i ((case getBlock hl1 i of None \<Rightarrow> [] | Some l \<Rightarrow> l)
                 @ [\<lparr>start = s, end' = e\<rparr>]) hl1
          else hl1)"
      using b applyHighlight_block_Some [where querySelector = querySelector, OF Some len o, of hl1]
      by simp
    then have "getBlock hl2 i = (if s < e
          then Some ((case getBlock (highlights st) i of None \<Rightarrow> [] | Some l \<Rightarrow> l)
                 @ [\<lparr>start = s, end' = e\<rparr>])
          else getBlock (highlights st) i)"
      using h1 by (simp add: getBlock_setBlock)
    then show ?thesis
      by (simp add: Some Let_def s_def e_def rs_def re_def)
  qed
  then show ?thesis using ret h2 by (simp add: highlights_saveHighlights)
qed

lemma walk_lower:
  "0 \<le> offset \<Longrightarrow> 0 \<le> cur \<Longrightarrow>
   walk nodes target offset cur = -1 \<or> 0 \<le> walk nodes target offset cur"
proof (induction nodes arbitrary: cur)
  case Nil
  show ?case by simp
next
  case (Cons n nodes)
  obtain i s where n: "n = (i, s)" by (cases n)
  have "0 \<le> cur + int (length s)" using Cons.prems(2) by simp
  from Cons.IH [OF Cons.prems(1) this] show ?case using Cons.prems by (simp add: n)
qed

lemma getBlockOffset_lower:
  "getBlockOffset blockEl target (int off) = -1 \<or> 0 \<le> getBlockOffset blockEl target (int off)"
  unfolding getBlockOffset_def by (rule walk_lower) simp_all

lemma selectionOffsets_eq:
  "selectionOffsets sect range' startIndex endIndex i blockEl =
     (let len = int (length (blockText (content sect ! i)));
          rs = getBlockOffset blockEl (startContainer range') (int (startOffset range'));
          re = getBlockOffset blockEl (endContainer range') (int (endOffset range'));
          s1 = (if i = startIndex \<and> rs \<noteq> -1 then rs else 0);
          e1 = (if i = endIndex \<and> re \<noteq> -1 then re else len)
      in if startIndex = endIndex \<and> s1 > e1 then (e1, s1) else (s1, e1))"
  unfolding selectionOffsets_def Let_def by (simp cong: if_cong)

lemma selectionOffsets_lower:
  assumes "selectionOffsets sect range' startIndex endIndex i blockEl = (s, e)"
  shows "0 \<le> s \<and> 0 \<le> e"
proof -
  define len where "len = int (length (blockText (content sect ! i)))"
  define rs where "rs = getBlockOffset blockEl (startContainer range') (int (startOffset range'))"
  define re where "re = getBlockOffset blockEl (endContainer range') (int (endOffset range'))"
  define s1 where "s1 = (if i = startIndex \<and> rs \<noteq> -1 then rs else 0)"
  define e1 where "e1 = (if i = endIndex \<and> re \<noteq> -1 then re else len)"
  have rs: "rs = -1 \<or> 0 \<le> rs" unfolding rs_def by (rule getBlockOffset_lower)
  have re: "re = -1 \<or> 0 \<le> re" unfolding re_def by (rule getBlockOffset_lower)
  have len: "0 \<le> len" by (simp add: len_def)
  have s1: "0 \<le> s1" using rs by (auto simp: s1_def)
  have e1: "0 \<le> e1" using re len by (auto simp: e1_def)
  have "selectionOffsets sect range' startIndex endIndex i blockEl
      = (if startIndex = endIndex \<and> s1 > e1 then (e1, s1) else (s1, e1))"
    by (simp add: selectionOffsets_eq Let_def s1_def e1_def rs_def re_def len_def)
  then have "(s, e) = (if startIndex = endIndex \<and> s1 > e1 then (e1, s1) else (s1, e1))"
    using assms by simp
  then show ?thesis using s1 e1 by (auto split: if_splits)
qed

lemma list_all_setBlock:
  "list_all P hl \<Longrightarrow> P (i, v) \<Longrightarrow> list_all P (setBlock i v hl)"
  by (induction hl) auto

lemma list_all_getBlock:
  "list_all P hl \<Longrightarrow> getBlock hl i = Some v \<Longrightarrow> P (i, v)"
  by (auto simp: getBlock_def list_all_iff dest: map_of_SomeD)

lemma applyHighlight_block_result:
  assumes "applyHighlight_block sect querySelector range' startIndex endIndex i hl = Inr hl'"
  shows "hl' = hl \<or>
         (\<exists>r. properRange r \<and> hl' = setBlock i (blockRanges hl i @ [r]) hl)"
proof (cases "querySelector i")
  case None
  then show ?thesis using assms by (simp add: applyHighlight_block_None)
next
  case (Some blockEl)
  show ?thesis
  proof (cases "i < length (content sect)")
    case False
    then show ?thesis using assms Some by (simp add: applyHighlight_block_TypeError)
  next
    case True
    obtain s e where o: "selectionOffsets sect range' startIndex endIndex i blockEl = (s, e)"
      by (cases "selectionOffsets sect range' startIndex endIndex i blockEl") auto
    have hl': "hl' = (if s < e
          then setBlock i ((case getBlock hl i of None \<Rightarrow> [] | Some l \<Rightarrow> l)
                 @ [\<lparr>start = s, end' = e\<rparr>]) hl
          else hl)"
      using assms applyHighlight_block_Some [where querySelector = querySelector, OF Some True o, of hl]
      by simp
    show ?thesis
    proof (cases "s < e")
      case False
      then show ?thesis using hl' by simp
    next
      case se: True
      have "properRange \<lparr>start = s, end' = e\<rparr>"
        using selectionOffsets_lower [OF o] se by (simp add: properRange_def)
      then show ?thesis using hl' se by (auto simp: blockRanges_def)
    qed
  qed
qed

lemma applyHighlight_block_proper:
  assumes "properHighlights hl"
    "applyHighlight_block sect querySelector range' startIndex endIndex i hl = Inr hl'"
  shows "properHighlights hl'"
proof -
  from applyHighlight_block_result [OF assms(2)]
  consider "hl' = hl" | r where "properRange r" "hl' = setBlock i (blockRanges hl i @ [r]) hl"
    by blast
  then show ?thesis
  proof cases
    case 1
    then show ?thesis using assms(1) by simp
  next
    case 2
    let ?P = "\<lambda>(i, hs). list_all properRange hs"
    have old: "list_all properRange (blockRanges hl i)"
    proof (cases "getBlock hl i")
      case None
      then show ?thesis by (simp add: blockRanges_def)
    next
      case (Some l)
      have "?P (i, l)" using assms(1) Some unfolding properHighlights_def
        by (rule list_all_getBlock)
      then show ?thesis using Some by (simp add: blockRanges_def)
    qed
    have "?P (i, blockRanges hl i @ [r])" using old 2(1) by simp
    then have "list_all ?P (setBlock i (blockRanges hl i @ [r]) hl)"
      using assms(1) unfolding properHighlights_def by (intro list_all_setBlock)
    then show ?thesis using 2(2) by (simp add: properHighlights_def)
  qed
qed

lemma applyHighlight_loop_proper:
  "properHighlights hl \<Longrightarrow>
   applyHighlight_loop sect querySelector range' startIndex endIndex is hl = Inr hl' \<Longrightarrow>
   properHighlights hl'"
proof (induction "is" arbitrary: hl)
  case Nil
  then show ?case by simp
next
  case (Cons i "is")
  obtain hl1 where b: "applyHighlight_block sect querySelector range' startIndex endIndex i hl = Inr hl1"
    and l: "applyHighlight_loop sect querySelector range' startIndex endIndex is hl1 = Inr hl'"
    using Cons.prems(2) by (auto split: sum.splits)
  have "properHighlights hl1" using Cons.prems(1) b by (rule applyHighlight_block_proper)
  then show ?case using l by (rule Cons.IH)
qed

lemma blockRanges_cong: "getBlock hl i = getBlock hl' i \<Longrightarrow> blockRanges hl i = blockRanges hl' i"
  by (simp add: blockRanges_def)

text \<open>
  C1 (as amended). applyHighlight does not merge: for every block index, the list of
  ranges held afterwards is the list held before with at most one range appended, and an
  appended range satisfies \<open>0 <= start < end\<close>. So every range held afterwards satisfies
  \<open>0 <= start < end\<close> when every range held before does. The persisted value is the JSON
  text of the state held afterwards.
\<close>

theorem applyHighlight_appends_unmerged:
  assumes "applyHighlight sect querySelector range' startIndex endIndex st = Inr st'"
  shows "(\<exists>added. blockRanges (highlights st') i = blockRanges (highlights st) i @ added \<and>
            length added \<le> 1 \<and> list_all properRange added) \<and>
         (properHighlights (highlights st) \<longrightarrow> properHighlights (highlights st')) \<and>
         localStorage st' (storageKey sect) = Some (JSON_stringify (highlights st'))"
proof -
  let ?is = "[min startIndex endIndex ..< Suc (max startIndex endIndex)]"
  obtain nh where
    loop: "applyHighlight_loop sect querySelector range' startIndex endIndex ?is (highlights st) = Inr nh"
    and st': "st' = saveHighlights sect nh st"
    using assms by (auto simp: applyHighlight_def split: sum.splits)
  have h: "highlights st' = nh" by (simp add: st' saveHighlights_def)
  have 1: "\<exists>added. blockRanges nh i = blockRanges (highlights st) i @ added \<and>
            length added \<le> 1 \<and> list_all properRange added"
  proof (cases "i \<in> set ?is")
    case False
    with loop have "getBlock nh i = getBlock (highlights st) i"
      by (rule applyHighlight_loop_frame)
    then have "blockRanges nh i = blockRanges (highlights st) i @ []"
      by (simp add: blockRanges_def)
    then show ?thesis by (intro exI [of _ "[]"]) simp
  next
    case True
    have "distinct ?is" by simp
    with loop True obtain hl1 hl2 where
      h1: "getBlock hl1 i = getBlock (highlights st) i" and
      b: "applyHighlight_block sect querySelector range' startIndex endIndex i hl1 = Inr hl2" and
      h2: "getBlock nh i = getBlock hl2 i"
      using applyHighlight_loop_at by blast
    have o: "blockRanges hl1 i = blockRanges (highlights st) i" using h1 by (rule blockRanges_cong)
    have n: "blockRanges nh i = blockRanges hl2 i" using h2 by (rule blockRanges_cong)
    from applyHighlight_block_result [OF b]
    consider "hl2 = hl1" | r where "properRange r" "hl2 = setBlock i (blockRanges hl1 i @ [r]) hl1"
      by blast
    then show ?thesis
    proof cases
      case 1
      then have "blockRanges nh i = blockRanges (highlights st) i @ []" using o n by simp
      then show ?thesis by (intro exI [of _ "[]"]) simp
    next
      case 2
      have "blockRanges hl2 i = blockRanges hl1 i @ [r]"
        by (simp add: 2(2) blockRanges_def getBlock_setBlock)
      then have "blockRanges nh i = blockRanges (highlights st) i @ [r]" using o n by simp
      then show ?thesis using 2(1) by (intro exI [of _ "[r]"]) simp
    qed
  qed
  have 2: "properHighlights (highlights st) \<longrightarrow> properHighlights nh"
    using loop applyHighlight_loop_proper by blast
  have 3: "localStorage st' (storageKey sect) = Some (JSON_stringify (highlights st'))"
    by (simp add: st' saveHighlights_def)
  show ?thesis using 1 2 3 by (simp add: h)
qed

lemmas eval_defs =
  applyHighlight_def applyHighlight_block_def selectionOffsets_def
  getBlockOffset_def walkerNodes_def saveHighlights_def storageKey_def getBlock_def
  JSON_stringify_def stringify_entry_def stringify_array_def stringify_highlight_def
  show_int_def show_nat.simps digit_char_def upt_conv_Cons

text \<open>
  A selection of the offsets 4 to 9 in a block that holds the range \<open>{10, 15}\<close>: the new
  range is appended after it.
\<close>

theorem applyHighlight_appends_unmerged_witness:
  \<open>applyHighlight
     \<lparr>sectionId = ''genesis'',
      content = [\<lparr>blockType = Paragraph, blockText = ''the quick brown fox''\<rparr>]\<rparr>
     ((\<lambda>_. None)(0 \<mapsto> ElementNode 100 [ElementNode 101 [TextNode 1 ''the quick ''],
                     ElementNode 102 [TextNode 2 ''brown''], ElementNode 103 [TextNode 3 '' fox'']]))
     \<lparr>startContainer = 1, startOffset = 4, endContainer = 1, endOffset = 9\<rparr> 0 0
     \<lparr>highlights = [(0, [\<lparr>start = 10, end' = 15\<rparr>])], localStorage = (\<lambda>_. None)\<rparr>
   = Inr \<lparr>highlights = [(0, [\<lparr>start = 10, end' = 15\<rparr>, \<lparr>start = 4, end' = 9\<rparr>])],
          localStorage = (\<lambda>_. None)(''highlights-genesis'' \<mapsto>
             ''{"0":[{"start":10,"end":15},{"start":4,"end":9}]}'')\<rparr> \<and>
   blockRanges [(0, [\<lparr>start = 10, end' = 15\<rparr>, \<lparr>start = 4, end' = 9\<rparr>])] 0
     = blockRanges [(0, [\<lparr>start = 10, end' = 15\<rparr>])] 0 @ [\<lparr>start = 4, end' = 9\<rparr>] \<and>
   properHighlights [(0, [\<lparr>start = 10, end' = 15\<rparr>])] \<and>
   properHighlights [(0, [\<lparr>start = 10, end' = 15\<rparr>, \<lparr>start = 4, end' = 9\<rparr>])]\<close>
proof -
  let ?sect = "\<lparr>sectionId = ''genesis'',
      content = [\<lparr>blockType = Paragraph, blockText = ''the quick brown fox''\<rparr>]\<rparr>"
  let ?qs = "(\<lambda>_. None)(0 \<mapsto> ElementNode 100 [ElementNode 101 [TextNode 1 ''the quick ''],
                     ElementNode 102 [TextNode 2 ''brown''], ElementNode 103 [TextNode 3 '' fox'']])"
  let ?range = "\<lparr>startContainer = 1, startOffset = 4, endContainer = 1, endOffset = 9\<rparr>"
  let ?st = "\<lparr>highlights = [(0, [\<lparr>start = 10, end' = 15\<rparr>])], localStorage = (\<lambda>_. None)\<rparr>"
  let ?st' = \<open>\<lparr>highlights = [(0, [\<lparr>start = 10, end' = 15\<rparr>, \<lparr>start = 4, end' = 9\<rparr>])],
          localStorage = (\<lambda>_. None)(''highlights-genesis'' \<mapsto>
             ''{"0":[{"start":10,"end":15},{"start":4,"end":9}]}'')\<rparr>\<close>
  have ev: "applyHighlight ?sect ?qs ?range 0 0 ?st = Inr ?st'"
    by (simp add: eval_defs)
  have p: "properHighlights (highlights ?st)"
    by (simp add: properHighlights_def properRange_def)
  from applyHighlight_appends_unmerged [where querySelector = ?qs and i = 0, OF ev] p
  have "properHighlights (highlights ?st')" by blast
  then show ?thesis using ev p by (simp add: blockRanges_def getBlock_def)
qed

text \<open>
  C1 as stated fails in two ways. After a selection that overlaps a stored range, the state
  held and the JSON text persisted contain the two overlapping ranges \<open>{4, 9}\<close> and
  \<open>{7, 15}\<close>. And the offsets are not clamped to the block text: a block of type
  \<open>quote\<close> is rendered between two quote marks, which getBlockOffset counts, so selecting
  the whole text \<open>abc\<close> stores \<open>{1, 4}\<close>, beyond the length 3.
\<close>

theorem applyHighlight_stores_unmerged_counterexample:
  \<open>validHighlights
     \<lparr>sectionId = ''genesis'',
      content = [\<lparr>blockType = Paragraph, blockText = ''the quick brown fox''\<rparr>]\<rparr>
     [(0, [\<lparr>start = 4, end' = 9\<rparr>])] \<and>
   mergedHighlights [(0, [\<lparr>start = 4, end' = 9\<rparr>])] \<and>
   applyHighlight
     \<lparr>sectionId = ''genesis'',
      content = [\<lparr>blockType = Paragraph, blockText = ''the quick brown fox''\<rparr>]\<rparr>
     ((\<lambda>_. None)(0 \<mapsto> ElementNode 100 [ElementNode 101 [TextNode 1 ''the ''],
                     ElementNode 102 [TextNode 2 ''quick''], ElementNode 103 [TextNode 3 '' brown fox'']]))
     \<lparr>startContainer = 2, startOffset = 3, endContainer = 3, endOffset = 6\<rparr> 0 0
     \<lparr>highlights = [(0, [\<lparr>start = 4, end' = 9\<rparr>])], localStorage = (\<lambda>_. None)\<rparr>
   = Inr \<lparr>highlights = [(0, [\<lparr>start = 4, end' = 9\<rparr>, \<lparr>start = 7, end' = 15\<rparr>])],
          localStorage = (\<lambda>_. None)(''highlights-genesis'' \<mapsto>
             ''{"0":[{"start":4,"end":9},{"start":7,"end":15}]}'')\<rparr> \<and>
   \<not> mergedHighlights [(0, [\<lparr>start = 4, end' = 9\<rparr>, \<lparr>start = 7, end' = 15\<rparr>])] \<and>
   applyHighlight
     \<lparr>sectionId = ''genesis'', content = [\<lparr>blockType = Quote, blockText = ''abc''\<rparr>]\<rparr>
     ((\<lambda>_. None)(0 \<mapsto> ElementNode 200 [TextNode 201 ''"'', TextNode 202 ''abc'',
                     TextNode 203 ''"'']))
     \<lparr>startContainer = 202, startOffset = 0, endContainer = 202, endOffset = 3\<rparr> 0 0
     \<lparr>highlights = [], localStorage = (\<lambda>_. None)\<rparr>
   = Inr \<lparr>highlights = [(0, [\<lparr>start = 1, end' = 4\<rparr>])],
          localStorage = (\<lambda>_. None)(''highlights-genesis'' \<mapsto> ''{"0":[{"start":1,"end":4}]}'')\<rparr> \<and>
   \<not> validHighlights
     \<lparr>sectionId = ''genesis'', content = [\<lparr>blockType = Quote, blockText = ''abc''\<rparr>]\<rparr>
     [(0, [\<lparr>start = 1, end' = 4\<rparr>])]\<close>
  by (simp add: eval_defs validHighlights_def validRange_def mergedHighlights_def)

text \<open>
  A selection from block 0 to block 2: the interior block 1 gets the range over its
  whole text after the range it had.
\<close>

theorem applyHighlight_multi_block_witness:
  \<open>applyHighlight
     \<lparr>sectionId = ''genesis'',
      content = [\<lparr>blockType = Paragraph, blockText = ''abc''\<rparr>,
                 \<lparr>blockType = Verse, blockText = ''middle''\<rparr>,
                 \<lparr>blockType = Paragraph, blockText = ''def''\<rparr>]\<rparr>
     ((\<lambda>_. None)(0 \<mapsto> ElementNode 10 [TextNode 11 ''abc''],
                   1 \<mapsto> ElementNode 15 [TextNode 16 ''middle''],
                   2 \<mapsto> ElementNode 20 [TextNode 21 ''def'']))
     \<lparr>startContainer = 11, startOffset = 1, endContainer = 21, endOffset = 2\<rparr> 0 2
     \<lparr>highlights = [(1, [\<lparr>start = 2, end' = 4\<rparr>])], localStorage = (\<lambda>_. None)\<rparr>
   = Inr \<lparr>highlights = [(0, [\<lparr>start = 1, end' = 3\<rparr>]),
                          (1, [\<lparr>start = 2, end' = 4\<rparr>, \<lparr>start = 0, end' = 6\<rparr>]),
                          (2, [\<lparr>start = 0, end' = 2\<rparr>])],
          localStorage = (\<lambda>_. None)(''highlights-genesis'' \<mapsto>
             ''{"0":[{"start":1,"end":3}],"1":[{"start":2,"end":4},{"start":0,"end":6}],"2":[{"start":0,"end":2}]}'')\<rparr>\<close>
proof -
  let ?sect = "\<lparr>sectionId = ''genesis'',
      content = [\<lparr>blockType = Paragraph, blockText = ''abc''\<rparr>,
                 \<lparr>blockType = Verse, blockText = ''middle''\<rparr>,
                 \<lparr>blockType = Paragraph, blockText = ''def''\<rparr>]\<rparr>"
  let ?qs = "(\<lambda>_. None)(0 \<mapsto> ElementNode 10 [TextNode 11 ''abc''],
                   1 \<mapsto> ElementNode 15 [TextNode 16 ''middle''],
                   2 \<mapsto> ElementNode 20 [TextNode 21 ''def''])"
  let ?range = "\<lparr>startContainer = 11, startOffset = 1, endContainer = 21, endOffset = 2\<rparr>"
  let ?st = "\<lparr>highlights = [(1, [\<lparr>start = 2, end' = 4\<rparr>])], localStorage = (\<lambda>_. None)\<rparr>"
  have h: "\<forall>j \<in> {min 0 2 .. max 0 (2::nat)}. ?qs j \<noteq> None \<longrightarrow> j < length (content ?sect)"
    by simp
  have ne: "(0::nat) \<noteq> 2" by simp
  obtain st' where r: "applyHighlight ?sect ?qs ?range 0 2 ?st = Inr st'"
    and r1: "getBlock (highlights st') 1 = Some [\<lparr>start = 2, end' = 4\<rparr>, \<lparr>start = 0, end' = 6\<rparr>]"
    using applyHighlight_multi_block [where querySelector = ?qs and sect = ?sect and i = 1
        and startIndex = 0 and endIndex = 2 and range' = ?range and st = ?st, OF ne _ _ h]
    by (auto simp: getBlock_def getBlockOffset_def walkerNodes_def)
  have ev: \<open>applyHighlight ?sect ?qs ?range 0 2 ?st
     = Inr \<lparr>highlights = [(0, [\<lparr>start = 1, end' = 3\<rparr>]),
                          (1, [\<lparr>start = 2, end' = 4\<rparr>, \<lparr>start = 0, end' = 6\<rparr>]),
                          (2, [\<lparr>start = 0, end' = 2\<rparr>])],
          localStorage = (\<lambda>_. None)(''highlights-genesis'' \<mapsto>
             ''{"0":[{"start":1,"end":3}],"1":[{"start":2,"end":4},{"start":0,"end":6}],"2":[{"start":0,"end":2}]}'')\<rparr>\<close>
    by (simp add: eval_defs)
  show ?thesis using ev r r1 by simp
qed

text \<open>
  C8 as stated fails for an interior block of type \<open>separator\<close>: renderContent gives it
  no \<open>data-block-index\<close>, the loop skips it (\<open>if (!blockEl) continue\<close>), and it gets no
  range although its text is not empty.
\<close>

theorem applyHighlight_skips_unrendered_block_counterexample:
  \<open>applyHighlight
     \<lparr>sectionId = ''genesis'',
      content = [\<lparr>blockType = Paragraph, blockText = ''abc''\<rparr>,
                 \<lparr>blockType = Separator, blockText = ''***''\<rparr>,
                 \<lparr>blockType = Paragraph, blockText = ''def''\<rparr>]\<rparr>
     ((\<lambda>_. None)(0 \<mapsto> ElementNode 10 [TextNode 11 ''abc''],
                   2 \<mapsto> ElementNode 20 [TextNode 21 ''def'']))
     \<lparr>startContainer = 11, startOffset = 1, endContainer = 21, endOffset = 2\<rparr> 0 2
     \<lparr>highlights = [], localStorage = (\<lambda>_. None)\<rparr>
   = Inr \<lparr>highlights = [(0, [\<lparr>start = 1, end' = 3\<rparr>]), (2, [\<lparr>start = 0, end' = 2\<rparr>])],
          localStorage = (\<lambda>_. None)(''highlights-genesis'' \<mapsto>
             ''{"0":[{"start":1,"end":3}],"2":[{"start":0,"end":2}]}'')\<rparr> \<and>
   getBlock [(0, [\<lparr>start = 1, end' = 3\<rparr>]), (2, [\<lparr>start = 0, end' = 2\<rparr>])] 1 = None \<and>
   (0::int) < int (length ''***'')\<close>
  by (simp add: eval_defs)

text \<open>
  A selection over the blocks 0 to 2 leaves the ranges of block 5 as they were.
\<close>

theorem applyHighlight_frame_witness:
  \<open>getBlock (highlights (case applyHighlight
     \<lparr>sectionId = ''genesis'',
      content = [\<lparr>blockType = Paragraph, blockText = ''abc''\<rparr>,
                 \<lparr>blockType = Verse, blockText = ''middle''\<rparr>,
                 \<lparr>blockType = Paragraph, blockText = ''def''\<rparr>]\<rparr>
     ((\<lambda>_. None)(0 \<mapsto> ElementNode 10 [TextNode 11 ''abc''],
                   1 \<mapsto> ElementNode 15 [TextNode 16 ''middle''],
                   2 \<mapsto> ElementNode 20 [TextNode 21 ''def'']))
     \<lparr>startContainer = 11, startOffset = 1, endContainer = 21, endOffset = 2\<rparr> 0 2
     \<lparr>highlights = [(1, [\<lparr>start = 2, end' = 4\<rparr>]), (5, [\<lparr>start = 0, end' = 7\<rparr>])],
      localStorage = (\<lambda>_. None)\<rparr> of
       Inr st' \<Rightarrow> st'
     | Inl e \<Rightarrow> \<lparr>highlights = [(1, [\<lparr>start = 2, end' = 4\<rparr>]), (5, [\<lparr>start = 0, end' = 7\<rparr>])],
                  localStorage = (\<lambda>_. None)\<rparr>)) 5
     = Some [\<lparr>start = 0, end' = 7\<rparr>]\<close>
  using applyHighlight_frame [where i = 5 and startIndex = 0 and endIndex = 2 and sect =
     "\<lparr>sectionId = ''genesis'',
      content = [\<lparr>blockType = Paragraph, blockText = ''abc''\<rparr>,
                 \<lparr>blockType = Verse, blockText = ''middle''\<rparr>,
                 \<lparr>blockType = Paragraph, blockText = ''def''\<rparr>]\<rparr>"
     and querySelector =
     "(\<lambda>_. None)(0 \<mapsto> ElementNode 10 [TextNode 11 ''abc''],
                   1 \<mapsto> ElementNode 15 [TextNode 16 ''middle''],
                   2 \<mapsto> ElementNode 20 [TextNode 21 ''def''])"
     and range' =
     "\<lparr>startContainer = 11, startOffset = 1, endContainer = 21, endOffset = 2\<rparr>"
     and st =
     "\<lparr>highlights = [(1, [\<lparr>start = 2, end' = 4\<rparr>]), (5, [\<lparr>start = 0, end' = 7\<rparr>])],
      localStorage = (\<lambda>_. None)\<rparr>"]
  by (simp add: getBlock_def)

lemma loadHighlights_missing:
  "localStorage st (storageKey sect) = None \<Longrightarrow>
   loadHighlights sect st = Inr (st\<lparr>highlights := []\<rparr>)"
  by (simp add: loadHighlights_def)

lemma loadHighlights_parsed:
  "localStorage st (storageKey sect) = Some saved \<Longrightarrow> saved \<noteq> [] \<Longrightarrow>
   JSON_parse saved = Some v \<Longrightarrow> decode_state v = Some parsed \<Longrightarrow>
   loadHighlights sect st = Inr (st\<lparr>highlights := parsed\<rparr>)"
  by (simp add: loadHighlights_def)

lemma loadHighlights_unparsable:
  "localStorage st (storageKey sect) = Some saved \<Longrightarrow> saved \<noteq> [] \<Longrightarrow>
   JSON_parse saved = None \<Longrightarrow> loadHighlights sect st = Inr st"
  by (simp add: loadHighlights_def)

lemma loadHighlights_other_shape:
  \<open>loadHighlights \<lparr>sectionId = ''exodus'', content = []\<rparr>
     \<lparr>highlights = [(0, [\<lparr>start = 4, end' = 9\<rparr>])],
      localStorage = (\<lambda>_. None)(''highlights-exodus'' \<mapsto> ''[]'')\<rparr>
   = Inl (JArray [])\<close>
  by (simp add: loadHighlights_def storageKey_def JSON_parse_def skip_ws_def is_ws_def
      starts_with_def parse_value.simps decode_state_def)

lemma loadHighlights_white_space:
  \<open>loadHighlights \<lparr>sectionId = ''exodus'', content = []\<rparr>
     \<lparr>highlights = [], localStorage = (\<lambda>_. None)(''highlights-exodus'' \<mapsto>
        '' { "2" : [ {"start": 4, "end": 9} ] } '')\<rparr>
   = Inr \<lparr>highlights = [(2, [\<lparr>start = 4, end' = 9\<rparr>])],
          localStorage = (\<lambda>_. None)(''highlights-exodus'' \<mapsto>
        '' { "2" : [ {"start": 4, "end": 9} ] } '')\<rparr>\<close>
  by (simp add: loadHighlights_def storageKey_def JSON_parse_def skip_ws_def is_ws_def
      starts_with_def parse_value.simps parse_members.simps parse_elements.simps
      parse_number_def is_digit_def digits_val_def digit_val_def Let_def
      decode_state_def decode_entry_def decode_index_def decode_array_def
      decode_highlight_def decode_int_def)

lemma setBlock_keys: "fst ` set (setBlock i v hl) = insert i (fst ` set hl)"
proof (induction hl)
  case Nil
  show ?case by simp
next
  case (Cons p hl)
  obtain k w where p: "p = (k, w)" by (cases p)
  show ?case
  proof (cases "i < k")
    case True
    then show ?thesis by (simp add: p)
  next
    case False
    show ?thesis
    proof (cases "i = k")
      case True
      then show ?thesis by (simp add: p)
    next
      case ne: False
      have "setBlock i v (p # hl) = (k, w) # setBlock i v hl" using False ne by (simp add: p)
      then show ?thesis using Cons.IH by (simp add: p insert_commute)
    qed
  qed
qed

lemma setBlock_sorted:
  "sorted_wrt (<) (map fst hl) \<Longrightarrow> sorted_wrt (<) (map fst (setBlock i v hl))"
proof (induction hl)
  case Nil
  show ?case by simp
next
  case (Cons p hl)
  obtain k w where p: "p = (k, w)" by (cases p)
  have tl: "sorted_wrt (<) (map fst hl)" and hd: "\<forall>j \<in> fst ` set hl. k < j"
    using Cons.prems by (auto simp: p)
  show ?case
  proof (cases "i < k")
    case True
    then show ?thesis using Cons.prems hd by (auto simp: p)
  next
    case False
    show ?thesis
    proof (cases "i = k")
      case True
      then show ?thesis using Cons.prems by (simp add: p)
    next
      case ne: False
      have "\<forall>j \<in> fst ` set (setBlock i v hl). k < j"
        using hd False ne by (auto simp: setBlock_keys)
      then show ?thesis using False ne Cons.IH [OF tl] by (simp add: p)
    qed
  qed
qed

lemma applyHighlight_block_sorted:
  assumes "sorted_wrt (<) (map fst hl)"
    "applyHighlight_block sect querySelector range' startIndex endIndex i hl = Inr hl'"
  shows "sorted_wrt (<) (map fst hl')"
  using assms
  by (auto simp: applyHighlight_block_def setBlock_sorted split: option.splits if_splits prod.splits)

lemma applyHighlight_loop_sorted:
  "sorted_wrt (<) (map fst hl) \<Longrightarrow>
   applyHighlight_loop sect querySelector range' startIndex endIndex is hl = Inr hl' \<Longrightarrow>
   sorted_wrt (<) (map fst hl')"
proof (induction "is" arbitrary: hl)
  case Nil
  then show ?case by simp
next
  case (Cons i "is")
  obtain hl1 where b: "applyHighlight_block sect querySelector range' startIndex endIndex i hl = Inr hl1"
    and l: "applyHighlight_loop sect querySelector range' startIndex endIndex is hl1 = Inr hl'"
    using Cons.prems(2) by (auto split: sum.splits)
  have "sorted_wrt (<) (map fst hl1)" using Cons.prems(1) b by (rule applyHighlight_block_sorted)
  then show ?case using l by (rule Cons.IH)
qed

lemma applyHighlight_keys_sorted:
  assumes "sorted_wrt (<) (map fst (highlights st))"
    "applyHighlight sect querySelector range' startIndex endIndex st = Inr st'"
  shows "sorted_wrt (<) (map fst (highlights st'))"
proof -
  obtain nh where
    loop: "applyHighlight_loop sect querySelector range' startIndex endIndex
             [min startIndex endIndex ..< Suc (max startIndex endIndex)] (highlights st) = Inr nh"
    and st': "st' = saveHighlights sect nh st"
    using assms(2) by (auto simp: applyHighlight_def split: sum.splits)
  have "sorted_wrt (<) (map fst nh)" using assms(1) loop by (rule applyHighlight_loop_sorted)
  then show ?thesis by (simp add: st' saveHighlights_def)
qed

lemma fold_setBlock_keys_sorted:
  "sorted_wrt (<) (map fst acc) \<Longrightarrow>
   sorted_wrt (<) (map fst (fold (\<lambda>(k, hs) obj. setBlock k hs obj) es acc))"
proof (induction es arbitrary: acc)
  case Nil
  then show ?case by simp
next
  case (Cons e es)
  obtain k hs where e: "e = (k, hs)" by (cases e)
  have "sorted_wrt (<) (map fst (setBlock k hs acc))" using Cons.prems by (rule setBlock_sorted)
  from Cons.IH [OF this] show ?case by (simp add: e)
qed

lemma decode_state_keys_sorted:
  "decode_state v = Some hl \<Longrightarrow> sorted_wrt (<) (map fst hl)"
  using fold_setBlock_keys_sorted [of "[]"]
  by (auto simp: decode_state_def split: json.splits option.splits)

text \<open>
  C9. Whatever the state in memory is, loading from a storage that holds what
  saveHighlights has written for the state \<open>H\<close> yields \<open>H\<close>: the JSON text written is
  read back to the same state. It holds for every state whose keys ascend (as the keys of
  a JavaScript object with integer keys do).
\<close>

theorem save_load_roundtrip:
  assumes "sorted_wrt (<) (map fst H)"
    "localStorage st' (storageKey sect)
       = localStorage (saveHighlights sect H st) (storageKey sect)"
  shows "loadHighlights sect st' = Inr (st'\<lparr>highlights := H\<rparr>)"
proof -
  have s: "localStorage st' (storageKey sect) = Some (JSON_stringify H)"
    using assms(2) by (simp add: saveHighlights_def)
  have p: "JSON_parse (JSON_stringify H) = Some (json_of_state H)"
    by (rule JSON_parse_stringify)
  have d: "decode_state (json_of_state H) = Some H"
    using assms(1) by (rule decode_state_json)
  show ?thesis using s JSON_stringify_nonempty p d by (rule loadHighlights_parsed)
qed

text \<open>
  A state with ranges at both ends of a text and a block with an empty list is saved; the
  load starts from the state of another section and reads the saved state back.
\<close>

theorem save_load_roundtrip_witness:
  \<open>localStorage (saveHighlights \<lparr>sectionId = ''genesis'', content = []\<rparr>
       [(0, [\<lparr>start = 0, end' = 4\<rparr>, \<lparr>start = 10, end' = 19\<rparr>]), (3, [])]
       \<lparr>highlights = [], localStorage = (\<lambda>_. None)\<rparr>) ''highlights-genesis''
     = Some ''{"0":[{"start":0,"end":4},{"start":10,"end":19}],"3":[]}'' \<and>
   loadHighlights \<lparr>sectionId = ''genesis'', content = []\<rparr>
     \<lparr>highlights = [(1, [\<lparr>start = 2, end' = 5\<rparr>])],
      localStorage = (\<lambda>_. None)(''highlights-genesis'' \<mapsto>
        ''{"0":[{"start":0,"end":4},{"start":10,"end":19}],"3":[]}'')\<rparr>
     = Inr \<lparr>highlights = [(0, [\<lparr>start = 0, end' = 4\<rparr>, \<lparr>start = 10, end' = 19\<rparr>]), (3, [])],
            localStorage = (\<lambda>_. None)(''highlights-genesis'' \<mapsto>
              ''{"0":[{"start":0,"end":4},{"start":10,"end":19}],"3":[]}'')\<rparr>\<close>
proof -
  let ?sect = "\<lparr>sectionId = ''genesis'', content = []\<rparr>"
  let ?H = "[(0::nat, [\<lparr>start = 0, end' = 4\<rparr>, \<lparr>start = 10, end' = 19\<rparr>]), (3, [])]"
  let ?st = "\<lparr>highlights = [], localStorage = (\<lambda>_. None)\<rparr>"
  let ?st' = \<open>\<lparr>highlights = [(1, [\<lparr>start = 2, end' = 5\<rparr>])],
      localStorage = (\<lambda>_. None)(''highlights-genesis'' \<mapsto>
        ''{"0":[{"start":0,"end":4},{"start":10,"end":19}],"3":[]}'')\<rparr>\<close>
  have k: "sorted_wrt (<) (map fst ?H)" by simp
  have w: \<open>localStorage (saveHighlights ?sect ?H ?st) ''highlights-genesis''
     = Some ''{"0":[{"start":0,"end":4},{"start":10,"end":19}],"3":[]}''\<close>
    by (simp add: eval_defs)
  have e: "localStorage ?st' (storageKey ?sect)
       = localStorage (saveHighlights ?sect ?H ?st) (storageKey ?sect)"
    using w by (simp add: storageKey_def)
  from save_load_roundtrip [OF k e] w show ?thesis by simp
qed

text \<open>
  C2 fails on the code. When the stored text does not parse, the load effect leaves the
  highlights of the section shown before in place; only missing data resets the state to
  the empty one.
\<close>

theorem loadHighlights_malformed_keeps_previous:
  \<open>JSON_parse ''{bad'' = None \<and>
   loadHighlights \<lparr>sectionId = ''exodus'', content = []\<rparr>
     \<lparr>highlights = [(0, [\<lparr>start = 4, end' = 9\<rparr>])],
      localStorage = (\<lambda>_. None)(''highlights-exodus'' \<mapsto> ''{bad'')\<rparr>
   = Inr \<lparr>highlights = [(0, [\<lparr>start = 4, end' = 9\<rparr>])],
      localStorage = (\<lambda>_. None)(''highlights-exodus'' \<mapsto> ''{bad'')\<rparr> \<and>
   loadHighlights \<lparr>sectionId = ''exodus'', content = []\<rparr>
     \<lparr>highlights = [(0, [\<lparr>start = 4, end' = 9\<rparr>])], localStorage = (\<lambda>_. None)\<rparr>
   = Inr \<lparr>highlights = [], localStorage = (\<lambda>_. None)\<rparr>\<close>
  by (simp add: loadHighlights_def storageKey_def JSON_parse_def skip_ws_def is_ws_def
      starts_with_def parse_value.simps parse_members.simps)

end
